theory Spec2Isabelle
  imports Main "HOL-Library.Multiset"
begin

section \<open>The audit log service (server/services/auditService.ts)\<close>

text \<open>
  The service keeps two process-wide tables (\<open>activeAudits\<close>, \<open>clientConnections\<close>),
  writes to two database tables (\<open>auditLogs\<close>, \<open>auditLogEntries\<close>) and pushes messages
  over WebSockets. The embedding threads one state record through every operation.

  \<open>logEvent\<close>, \<open>startAudit\<close> and \<open>completeAudit\<close> are asynchronous: each runs up to an
  \<open>await\<close> on the database, is suspended there, and continues when the database has
  answered; in between, other calls and handlers run. Each of them is therefore given
  in pieces, one for every stretch of code that runs without interruption, and the
  state holds the calls that are suspended. The whole call (\<open>logEvent\<close>, \<open>startAudit\<close>,
  \<open>completeAudit\<close>) is the composition of its pieces with nothing in between.

  Numbers are naturals or integers (exact for JavaScript numbers below \<open>2 ^ 53\<close>),
  strings are lists of code units, the wall clock and the outcome of each database call
  are parameters of the piece that reads them.
\<close>

subsection \<open>Event taxonomy\<close>

text \<open>
  Modelled from the spec: the types \<open>AuditEventType\<close> and \<open>AuditEventData\<close> are imported
  from the shared schema, which is not among the source files. The tags are the string
  literals the service passes to \<open>logEvent\<close>; each payload has the fields of the object
  literal the corresponding helper builds.
\<close>

datatype AuditEventType =
    job_started | db_query | db_insert | db_update | llm_call | chunk_processed
  | skeleton_extracted | stitch_pass | error | job_completed

text \<open>
  Values of TypeScript type \<open>any\<close>: the JSON values, and the two kinds of value that
  \<open>JSON.stringify\<close> refuses with a \<open>TypeError\<close>, a \<open>BigInt\<close> and an object graph with a
  cycle.
\<close>

datatype any = JNull | JBool bool | JNum int | JStr string | JArr "any list"
  | JObj "(string \<times> any) list" | JBigInt int | JCyclic

primrec serializable :: "any \<Rightarrow> bool" where
  "serializable JNull = True"
| "serializable (JBool _) = True"
| "serializable (JNum _) = True"
| "serializable (JStr _) = True"
| "serializable (JArr xs) = list_all id (map serializable xs)"
| "serializable (JObj kvs) = list_all snd (map (map_prod id serializable) kvs)"
| "serializable (JBigInt _) = False"
| "serializable JCyclic = False"

text \<open>JavaScript truthiness, for the test of \<open>message.auditLogId\<close>.\<close>

fun truthy :: "any \<Rightarrow> bool" where
  "truthy JNull = False"
| "truthy (JBool b) = b"
| "truthy (JNum n) = (n \<noteq> 0)"
| "truthy (JStr s) = (s \<noteq> [])"
| "truthy (JArr _) = True"
| "truthy (JObj _) = True"
| "truthy (JBigInt n) = (n \<noteq> 0)"
| "truthy JCyclic = True"

datatype Operation = SELECT | INSERT | UPDATE | DELETE

datatype AuditEventData =
    JobStartedData string "int option" "int option"
  | DbQueryData (sql: string) (params: "any list option") (table: string)
      (operation: Operation) (rowsReturned: int) (durationMs: int)
  | DbInsertData string int any int
  | DbUpdateData string int "string list" any int
  | LlmCallData (model: string) (purpose: string) (chunkIndex: "int option")
      (inputTokens: int) (outputTokens: int) (promptPreview: string)
      (responsePreview: string) (durationMs: int)
  | ChunkProcessedData int int int int bool "string list option" "string list option"
  | SkeletonExtractedData int int int int
  | StitchPassData string int int int int
  | ErrorData string string string "int option" bool
  | JobCompletedData string "int option" "int option" bool

text \<open>
  Whether \<open>JSON.stringify\<close> accepts a payload: only \<open>params\<close>, \<open>keyFields\<close> and
  \<open>newValues\<close> are of type \<open>any\<close>; the other fields are numbers, strings and booleans.
\<close>

fun stringifiable :: "AuditEventData \<Rightarrow> bool" where
  "stringifiable (DbQueryData _ ps _ _ _ _) =
     (case ps of None \<Rightarrow> True | Some xs \<Rightarrow> list_all serializable xs)"
| "stringifiable (DbInsertData _ _ keyFields _) = serializable keyFields"
| "stringifiable (DbUpdateData _ _ _ newValues _) = serializable newValues"
| "stringifiable (JobStartedData _ _ _) = True"
| "stringifiable (LlmCallData _ _ _ _ _ _ _ _) = True"
| "stringifiable (ChunkProcessedData _ _ _ _ _ _ _) = True"
| "stringifiable (SkeletonExtractedData _ _ _ _) = True"
| "stringifiable (StitchPassData _ _ _ _ _) = True"
| "stringifiable (ErrorData _ _ _ _ _) = True"
| "stringifiable (JobCompletedData _ _ _ _) = True"

subsection \<open>In-memory data\<close>

type_synonym WebSocket = nat

record AuditLogEntry =
  sequenceNum :: nat
  timestamp :: nat
  eventType :: AuditEventType
  eventData :: AuditEventData

text \<open>
  \<open>subscribers\<close> is a JavaScript \<open>Set\<close>: it iterates in insertion order and holds no
  element twice. It is a list here, with \<open>set_add\<close> and \<open>set_delete\<close> below.

  \<open>objectId\<close> is not a field of the source's interface. It is the identity of the
  JavaScript object: a suspended \<open>logEvent\<close> call holds on to the object it found in
  the registry, and pushes to that object even when the registry no longer holds it.
\<close>

record ActiveAudit =
  auditLogId :: nat
  userId :: nat
  jobType :: string
  jobId :: "nat option"
  sequenceCounter :: nat
  subscribers :: "WebSocket list"
  entries :: "AuditLogEntry list"
  objectId :: nat

definition set_add :: "'a \<Rightarrow> 'a list \<Rightarrow> 'a list" where
  "set_add x xs = (if x \<in> set xs then xs else xs @ [x])"

definition set_delete :: "'a \<Rightarrow> 'a list \<Rightarrow> 'a list" where
  "set_delete x xs = removeAll x xs"

subsection \<open>Database rows\<close>

text \<open>A row of \<open>auditLogEntries\<close>: the columns of \<open>InsertAuditLogEntry\<close>.\<close>

record AuditLogEntryRow = AuditLogEntry +
  rowAuditLogId :: nat

datatype Status = running | completed | failed

text \<open>A row of \<open>auditLogs\<close>: the columns of \<open>InsertAuditLog\<close> and those \<open>completeAudit\<close> sets.\<close>

record AuditLogRow =
  log_id :: nat
  log_userId :: nat
  log_jobType :: string
  log_jobId :: "nat option"
  log_startedAt :: nat
  log_completedAt :: "nat option"
  log_status :: Status
  log_finalOutputPreview :: "string option"

subsection \<open>Messages and sockets\<close>

text \<open>
  The id of an \<open>entry\<close> or \<open>completed\<close> message is the key of an audit, a number; the id
  a \<open>subscribed\<close> or \<open>history\<close> message echoes is whatever the client sent.
\<close>

datatype ServerMessage =
    Msg_entry nat AuditLogEntry
  | Msg_subscribed any
  | Msg_history any "AuditLogEntryRow list"
  | Msg_completed nat bool nat

text \<open>Whether \<open>JSON.stringify\<close> accepts a message.\<close>

fun stringify_ok :: "ServerMessage \<Rightarrow> bool" where
  "stringify_ok (Msg_entry _ entry) = stringifiable (eventData entry)"
| "stringify_ok (Msg_subscribed _) = True"
| "stringify_ok (Msg_history _ rows) = list_all (\<lambda>r. stringifiable (eventData r)) rows"
| "stringify_ok (Msg_completed _ _ _) = True"

text \<open>
  What a client sends: \<open>message.type\<close> with \<open>message.auditLogId\<close>, which is any JSON
  value (\<open>JNull\<close> when it is absent). Anything else (another type, text that does not
  parse) is \<open>other_message\<close>.
\<close>

datatype ClientMessage = subscribe any | get_history any | other_message

text \<open>
  The keys of \<open>activeAudits\<close> are the numeric ids the database returned. A \<open>Map\<close> finds
  a key only under an equal number: a string or any other value finds nothing.
\<close>

fun audit_key :: "any \<Rightarrow> nat option" where
  "audit_key (JNum n) = (if 0 \<le> n then Some (nat n) else None)"
| "audit_key JNull = None"
| "audit_key (JBool _) = None"
| "audit_key (JStr _) = None"
| "audit_key (JArr _) = None"
| "audit_key (JObj _) = None"
| "audit_key (JBigInt _) = None"
| "audit_key JCyclic = None"

datatype ReadyState = CONNECTING | OPEN | CLOSING | CLOSED

datatype failure = PersistenceError | TransportError | TypeError

subsection \<open>Suspended calls\<close>

text \<open>
  A \<open>logEvent\<close> call suspended at \<open>await db.insert\<close> (line 154) holds its local
  variables: the id, the audit object it found (\<open>None\<close> when it found none) and the
  entry it built.
\<close>

record pending_log =
  p_auditLogId :: nat
  p_object :: "nat option"
  p_entry :: AuditLogEntry

text \<open>
  \<open>AtInsert p c\<close>: a \<open>logEvent\<close> call suspended at the insert; \<open>c\<close> is
  \<open>Some (success, finalOutputPreview)\<close> when \<open>completeAudit\<close> made the call and waits for
  it. \<open>AtUpdate k success finalOutputPreview completedAt\<close>: a \<open>completeAudit\<close> call
  suspended at \<open>await db.update\<close> (line 324).
\<close>

datatype suspended_call =
    AtInsert pending_log "(bool \<times> string option) option"
  | AtUpdate nat bool "string option" nat

subsection \<open>State and outcomes\<close>

record state =
  activeAudits :: "nat \<rightharpoonup> ActiveAudit"
  clientConnections :: "WebSocket \<rightharpoonup> any option"
  auditLogs :: "AuditLogRow list"
  auditLogEntries :: "AuditLogEntryRow list"
  readyState :: "WebSocket \<Rightarrow> ReadyState"
  sent :: "(WebSocket \<times> ServerMessage) list"
  suspended :: "suspended_call list"
  objectCount :: nat

text \<open>
  A call either returns a value or throws; in both cases the mutations made so far stay,
  so both outcomes carry the state.
\<close>

datatype 'a outcome = Return 'a state | Throw failure state

fun state_of :: "'a outcome \<Rightarrow> state" where
  "state_of (Return _ s) = s"
| "state_of (Throw _ s) = s"

fun returns :: "'a outcome \<Rightarrow> bool" where
  "returns (Return _ _) = True"
| "returns (Throw _ _) = False"

definition init_state :: state where
  "init_state = \<lparr>activeAudits = Map.empty, clientConnections = Map.empty, auditLogs = [],
     auditLogEntries = [], readyState = (\<lambda>_. OPEN), sent = [], suspended = [],
     objectCount = 0\<rparr>"

text \<open>Mutation of the object stored under a key of \<open>activeAudits\<close>.\<close>

definition modify_audit :: "nat \<Rightarrow> (ActiveAudit \<Rightarrow> ActiveAudit) \<Rightarrow> state \<Rightarrow> state" where
  "modify_audit k f s =
     (case activeAudits s k of
        None \<Rightarrow> s
      | Some a \<Rightarrow> s\<lparr>activeAudits := (activeAudits s)(k \<mapsto> f a)\<rparr>)"

subsection \<open>The transport and the database\<close>

text \<open>
  \<open>ws.send\<close> of the WebSocket library: an open socket takes the message, a socket that is
  still connecting throws, a closing or closed socket drops the message.
\<close>

definition ws_send :: "WebSocket \<Rightarrow> ServerMessage \<Rightarrow> state \<Rightarrow> unit outcome" where
  "ws_send ws m s =
     (case readyState s ws of
        OPEN \<Rightarrow> Return () (s\<lparr>sent := sent s @ [(ws, m)]\<rparr>)
      | CONNECTING \<Rightarrow> Throw TransportError s
      | _ \<Rightarrow> Return () s)"

text \<open>\<open>ws.send(JSON.stringify(m))\<close>: the argument is evaluated first, and may throw.\<close>

definition send_json :: "WebSocket \<Rightarrow> ServerMessage \<Rightarrow> state \<Rightarrow> unit outcome" where
  "send_json ws m s = (if stringify_ok m then ws_send ws m s else Throw TypeError s)"

text \<open>\<open>db.insert(auditLogEntries).values(row)\<close>; \<open>dbOk\<close> says whether the store accepts it.\<close>

definition insert_auditLogEntries :: "bool \<Rightarrow> AuditLogEntryRow \<Rightarrow> state \<Rightarrow> unit outcome" where
  "insert_auditLogEntries dbOk row s =
     (if dbOk then Return () (s\<lparr>auditLogEntries := auditLogEntries s @ [row]\<rparr>)
      else Throw PersistenceError s)"

text \<open>
  \<open>db.insert(auditLogs).values(row).returning({id})\<close>: the row already carries the id the
  database assigns to it.
\<close>

definition insert_auditLogs :: "bool \<Rightarrow> AuditLogRow \<Rightarrow> state \<Rightarrow> nat outcome" where
  "insert_auditLogs dbOk row s =
     (if dbOk then Return (log_id row) (s\<lparr>auditLogs := auditLogs s @ [row]\<rparr>)
      else Throw PersistenceError s)"

text \<open>
  \<open>db.update(auditLogs).set({completedAt, status, finalOutputPreview}).where(eq(id, k))\<close>;
  a field that is \<open>undefined\<close> is left as it is.
\<close>

definition update_auditLogs ::
  "bool \<Rightarrow> nat \<Rightarrow> nat \<Rightarrow> Status \<Rightarrow> string option \<Rightarrow> state \<Rightarrow> unit outcome" where
  "update_auditLogs dbOk k at st preview s =
     (if dbOk then
        Return () (s\<lparr>auditLogs := map (\<lambda>r. if log_id r = k
            then r\<lparr>log_completedAt := Some at, log_status := st,
                   log_finalOutputPreview :=
                     (case preview of None \<Rightarrow> log_finalOutputPreview r | Some p \<Rightarrow> Some p)\<rparr>
            else r) (auditLogs s)\<rparr>)
      else Throw PersistenceError s)"

subsection \<open>broadcastEntry and logEvent\<close>

fun broadcast_loop :: "WebSocket list \<Rightarrow> ServerMessage \<Rightarrow> state \<Rightarrow> unit outcome" where
  "broadcast_loop [] m s = Return () s"
| "broadcast_loop (ws # rest) m s =
     (if readyState s ws = OPEN then
        (case ws_send ws m s of
           Throw e s' \<Rightarrow> Throw e s'
         | Return _ s' \<Rightarrow> broadcast_loop rest m s')
      else broadcast_loop rest m s)"

text \<open>
  The message is built by \<open>JSON.stringify\<close> once, after the lookup and before the loop
  (line 355); nothing catches what it throws.
\<close>

definition broadcastEntry :: "nat \<Rightarrow> AuditLogEntry \<Rightarrow> state \<Rightarrow> unit outcome" where
  "broadcastEntry k entry s =
     (case activeAudits s k of
        None \<Rightarrow> Return () s
      | Some audit \<Rightarrow>
          if stringify_ok (Msg_entry k entry)
          then broadcast_loop (subscribers audit) (Msg_entry k entry) s
          else Throw TypeError s)"

text \<open>
  \<open>logEvent\<close> up to the \<open>await\<close> of line 154: the lookup, the increment of the counter
  and the two records. The insert is under way when the call is suspended.
\<close>

definition logEvent_begin ::
  "nat \<Rightarrow> AuditEventType \<Rightarrow> AuditEventData \<Rightarrow> nat \<Rightarrow> state \<Rightarrow> pending_log \<times> state" where
  "logEvent_begin k ty data now s =
     (let audit = activeAudits s k;
          seqNum = (case audit of Some a \<Rightarrow> sequenceCounter a + 1 | None \<Rightarrow> 1);
          s1 = (if audit \<noteq> None
                then modify_audit k (\<lambda>a. a\<lparr>sequenceCounter := sequenceCounter a + 1\<rparr>) s
                else s);
          entry = \<lparr>sequenceNum = seqNum, timestamp = now, eventType = ty, eventData = data\<rparr>
      in (\<lparr>p_auditLogId = k, p_object = map_option objectId audit, p_entry = entry\<rparr>, s1))"

text \<open>
  \<open>audit.entries.push(entry)\<close> on the object the call holds: it is seen in the registry
  only if the registry still holds that object under the id.
\<close>

definition push_entry :: "pending_log \<Rightarrow> state \<Rightarrow> state" where
  "push_entry p s =
     (case activeAudits s (p_auditLogId p) of
        None \<Rightarrow> s
      | Some a \<Rightarrow>
          if p_object p = Some (objectId a)
          then s\<lparr>activeAudits := (activeAudits s)(p_auditLogId p \<mapsto>
                   a\<lparr>entries := entries a @ [p_entry p]\<rparr>)\<rparr>
          else s)"

text \<open>
  \<open>logEvent\<close> from the \<open>await\<close> on: \<open>dbOk\<close> says whether the insert was accepted; a
  rejected insert is caught and logged. Then, if the call found an audit, the push and
  the broadcast.
\<close>

definition logEvent_resume :: "pending_log \<Rightarrow> bool \<Rightarrow> state \<Rightarrow> unit outcome" where
  "logEvent_resume p dbOk s =
     (let insertData = \<lparr>sequenceNum = sequenceNum (p_entry p),
                        timestamp = timestamp (p_entry p),
                        eventType = eventType (p_entry p),
                        eventData = eventData (p_entry p),
                        rowAuditLogId = p_auditLogId p\<rparr>;
          s2 = (case insert_auditLogEntries dbOk insertData s of
                  Return _ s' \<Rightarrow> s'
                | Throw _ s' \<Rightarrow> s')
      in if p_object p \<noteq> None
         then broadcastEntry (p_auditLogId p) (p_entry p) (push_entry p s2)
         else Return () s2)"

text \<open>The whole call: the database answers before anything else runs.\<close>

definition logEvent ::
  "nat \<Rightarrow> AuditEventType \<Rightarrow> AuditEventData \<Rightarrow> nat \<Rightarrow> bool \<Rightarrow> state \<Rightarrow> unit outcome" where
  "logEvent k ty data now dbOk s =
     (case logEvent_begin k ty data now s of (p, s1) \<Rightarrow> logEvent_resume p dbOk s1)"

subsection \<open>startAudit, the typed helpers and completeAudit\<close>

text \<open>
  \<open>startAudit\<close> up to its call of \<open>logEvent\<close>: the insert of the session row, whose
  failure is not caught, and the new audit object in the registry. \<open>newId\<close> is the id
  the database returns for the inserted row.
\<close>

definition startAudit_open ::
  "nat \<Rightarrow> string \<Rightarrow> nat option \<Rightarrow> nat \<Rightarrow> nat \<Rightarrow> bool \<Rightarrow> state \<Rightarrow> nat outcome" where
  "startAudit_open uid jt jid now newId dbOk s =
     (case insert_auditLogs dbOk
             \<lparr>log_id = newId, log_userId = uid, log_jobType = jt, log_jobId = jid,
              log_startedAt = now, log_completedAt = None, log_status = running,
              log_finalOutputPreview = None\<rparr> s of
        Throw e s' \<Rightarrow> Throw e s'
      | Return k s1 \<Rightarrow>
          (let audit = \<lparr>auditLogId = k, userId = uid, jobType = jt, jobId = jid,
                        sequenceCounter = 0, subscribers = [], entries = [],
                        objectId = objectCount s1\<rparr>
           in Return k (s1\<lparr>activeAudits := (activeAudits s1)(k \<mapsto> audit),
                           objectCount := Suc (objectCount s1)\<rparr>)))"

text \<open>
  The whole call; \<open>now\<close> and \<open>now'\<close> are the two clock readings, \<open>dbOk\<close> and \<open>dbOk'\<close> the
  outcomes of the two inserts.
\<close>

definition startAudit ::
  "nat \<Rightarrow> string \<Rightarrow> nat option \<Rightarrow> nat \<Rightarrow> nat \<Rightarrow> nat \<Rightarrow> bool \<Rightarrow> bool \<Rightarrow> state \<Rightarrow> nat outcome" where
  "startAudit uid jt jid now now' newId dbOk dbOk' s =
     (case startAudit_open uid jt jid now newId dbOk s of
        Throw e s' \<Rightarrow> Throw e s'
      | Return k s2 \<Rightarrow>
          (case logEvent k job_started (JobStartedData jt None None) now' dbOk' s2 of
             Throw e s' \<Rightarrow> Throw e s'
           | Return _ s3 \<Rightarrow> Return k s3))"

definition logDbQuery ::
  "nat \<Rightarrow> string \<Rightarrow> string \<Rightarrow> Operation \<Rightarrow> int \<Rightarrow> int \<Rightarrow> any list option \<Rightarrow> nat \<Rightarrow> bool
   \<Rightarrow> state \<Rightarrow> unit outcome" where
  "logDbQuery k sqlText tbl oper rows dur ps now dbOk s =
     logEvent k db_query (DbQueryData (take 500 sqlText) ps tbl oper rows dur) now dbOk s"

definition logLlmCall ::
  "nat \<Rightarrow> string \<Rightarrow> string \<Rightarrow> int \<Rightarrow> int \<Rightarrow> string \<Rightarrow> string \<Rightarrow> int \<Rightarrow> int option \<Rightarrow> nat \<Rightarrow> bool
   \<Rightarrow> state \<Rightarrow> unit outcome" where
  "logLlmCall k mdl purp inTok outTok prompt response dur chunk now dbOk s =
     logEvent k llm_call
       (LlmCallData mdl purp chunk inTok outTok (take 200 prompt) (take 200 response) dur)
       now dbOk s"

text \<open>
  The terminal notification: \<open>ws.send(JSON.stringify(...))\<close> to every subscriber, with no
  check of its state.
\<close>

fun send_all :: "WebSocket list \<Rightarrow> ServerMessage \<Rightarrow> state \<Rightarrow> unit outcome" where
  "send_all [] m s = Return () s"
| "send_all (ws # rest) m s =
     (case send_json ws m s of
        Throw e s' \<Rightarrow> Throw e s'
      | Return _ s' \<Rightarrow> send_all rest m s')"

text \<open>The payload of the \<open>job_completed\<close> event (lines 316 to 321).\<close>

definition completion_event :: "nat \<Rightarrow> bool \<Rightarrow> int option \<Rightarrow> int option \<Rightarrow> state \<Rightarrow> AuditEventData" where
  "completion_event k success actualWords targetWords s =
     JobCompletedData
       (case activeAudits s k of
          None \<Rightarrow> ''unknown''
        | Some a \<Rightarrow> if jobType a = [] then ''unknown'' else jobType a)
       targetWords actualWords success"

text \<open>
  \<open>completeAudit\<close> after its call of \<open>logEvent\<close> has returned: the status update, whose
  failure is caught, the notification and the removal from the registry. \<open>at\<close> is the
  clock reading taken when the update is issued.
\<close>

definition completeAudit_finish ::
  "nat \<Rightarrow> bool \<Rightarrow> string option \<Rightarrow> nat \<Rightarrow> bool \<Rightarrow> state \<Rightarrow> unit outcome" where
  "completeAudit_finish k success finalOutputPreview at dbOk s =
     (let s2 = (case update_auditLogs dbOk k at
                       (if success then completed else failed)
                       (map_option (take 500) finalOutputPreview) s of
                  Return _ s' \<Rightarrow> s'
                | Throw _ s' \<Rightarrow> s')
      in case (case activeAudits s2 k of
                 None \<Rightarrow> Return () s2
               | Some audit \<Rightarrow>
                   send_all (subscribers audit)
                     (Msg_completed k success (length (entries audit))) s2) of
           Throw e s' \<Rightarrow> Throw e s'
         | Return _ s3 \<Rightarrow> Return () (s3\<lparr>activeAudits := (activeAudits s3)(k := None)\<rparr>))"

definition completeAudit ::
  "nat \<Rightarrow> bool \<Rightarrow> string option \<Rightarrow> int option \<Rightarrow> int option \<Rightarrow> nat \<Rightarrow> nat \<Rightarrow> bool \<Rightarrow> bool
   \<Rightarrow> state \<Rightarrow> unit outcome" where
  "completeAudit k success finalOutputPreview actualWords targetWords now now' dbOk dbOk' s =
     (case logEvent k job_completed (completion_event k success actualWords targetWords s)
             now dbOk s of
        Throw e s' \<Rightarrow> Throw e s'
      | Return _ s1 \<Rightarrow> completeAudit_finish k success finalOutputPreview now' dbOk' s1)"

subsection \<open>Queries\<close>

text \<open>
  \<open>ORDER BY sequenceNum ASC\<close> is modelled as a stable sort of the matching rows in
  insertion order. The query does not fix the order of rows with equal \<open>sequenceNum\<close>;
  the properties below read the result where the numbers are distinct, or compare rows
  with different numbers.
\<close>

definition getAuditEntries :: "bool \<Rightarrow> nat \<Rightarrow> state \<Rightarrow> AuditLogEntryRow list outcome" where
  "getAuditEntries dbOk k s =
     (if dbOk
      then Return (sort_key sequenceNum (filter (\<lambda>r. rowAuditLogId r = k) (auditLogEntries s))) s
      else Throw PersistenceError s)"

definition getAuditLog :: "bool \<Rightarrow> nat \<Rightarrow> state \<Rightarrow> AuditLogRow option outcome" where
  "getAuditLog dbOk k s =
     (if dbOk then Return (find (\<lambda>r. log_id r = k) (auditLogs s)) s
      else Throw PersistenceError s)"

record Summary =
  totalEvents :: nat
  dbQueries :: nat
  dbInserts :: nat
  dbUpdates :: nat
  llmCalls :: nat
  chunksProcessed :: nat
  errors :: nat

text \<open>The report object: the columns of the session row, \<open>entries\<close> and \<open>summary\<close>.\<close>

record Report =
  report_log :: AuditLogRow
  report_entries :: "AuditLogEntryRow list"
  summary :: Summary

definition getFullAuditReport :: "bool \<Rightarrow> bool \<Rightarrow> nat \<Rightarrow> state \<Rightarrow> Report option outcome" where
  "getFullAuditReport dbOk dbOk' k s =
     (case getAuditLog dbOk k s of
        Throw e s' \<Rightarrow> Throw e s'
      | Return None s1 \<Rightarrow> Return None s1
      | Return (Some log) s1 \<Rightarrow>
          (case getAuditEntries dbOk' k s1 of
             Throw e s' \<Rightarrow> Throw e s'
           | Return es s2 \<Rightarrow>
               Return (Some \<lparr>report_log = log, report_entries = es,
                 summary = \<lparr>totalEvents = length es,
                   dbQueries = length (filter (\<lambda>e. eventType e = db_query) es),
                   dbInserts = length (filter (\<lambda>e. eventType e = db_insert) es),
                   dbUpdates = length (filter (\<lambda>e. eventType e = db_update) es),
                   llmCalls = length (filter (\<lambda>e. eventType e = llm_call) es),
                   chunksProcessed = length (filter (\<lambda>e. eventType e = chunk_processed) es),
                   errors = length (filter (\<lambda>e. eventType e = error) es)\<rparr>\<rparr>) s2))"

subsection \<open>The WebSocket handlers of initAuditWebSocket\<close>

definition on_connection :: "WebSocket \<Rightarrow> state \<Rightarrow> state" where
  "on_connection ws s = s\<lparr>clientConnections := (clientConnections s)(ws \<mapsto> None)\<rparr>"

text \<open>\<open>activeAudits.get(id)\<close> for an id that a client sent.\<close>

definition lookup_audit :: "any \<Rightarrow> state \<Rightarrow> (nat \<times> ActiveAudit) option" where
  "lookup_audit i s =
     (case audit_key i of
        None \<Rightarrow> None
      | Some k \<Rightarrow> (case activeAudits s k of None \<Rightarrow> None | Some a \<Rightarrow> Some (k, a)))"

text \<open>The replay loop of the subscribe branch.\<close>

fun send_entries :: "WebSocket \<Rightarrow> nat \<Rightarrow> AuditLogEntry list \<Rightarrow> state \<Rightarrow> unit outcome" where
  "send_entries ws k [] s = Return () s"
| "send_entries ws k (entry # rest) s =
     (case send_json ws (Msg_entry k entry) s of
        Throw e s' \<Rightarrow> Throw e s'
      | Return _ s' \<Rightarrow> send_entries ws k rest s')"

text \<open>
  The query of the \<open>get_history\<close> branch. How the store compares the id column with a
  value that is not a number the source does not say: here such a query finds no row.
\<close>

definition history_query :: "bool \<Rightarrow> any \<Rightarrow> state \<Rightarrow> AuditLogEntryRow list outcome" where
  "history_query dbOk i s =
     (case audit_key i of
        Some k \<Rightarrow> getAuditEntries dbOk k s
      | None \<Rightarrow> if dbOk then Return [] s else Throw PersistenceError s)"

text \<open>
  The message handler. The whole body is inside \<open>try\<close>/\<open>catch\<close>, so the handler returns
  the state reached when something threw. A falsy id (absent, \<open>0\<close>, the empty string)
  makes the handler ignore the message; any other id is recorded for the socket and
  acknowledged, whether or not an audit is found under it. The \<open>get_history\<close> branch is
  taken in one piece, its \<open>await\<close> separating only the query from the answer.
\<close>

definition on_message :: "WebSocket \<Rightarrow> ClientMessage \<Rightarrow> bool \<Rightarrow> state \<Rightarrow> state" where
  "on_message ws message dbOk s =
     (case message of
        subscribe i \<Rightarrow>
          (if truthy i then
             (let s1 = s\<lparr>clientConnections := (clientConnections s)(ws \<mapsto> Some i)\<rparr>
              in case (case lookup_audit i s1 of
                         None \<Rightarrow> Return () s1
                       | Some (k, audit) \<Rightarrow>
                           send_entries ws k (entries audit)
                             (modify_audit k
                                (\<lambda>a. a\<lparr>subscribers := set_add ws (subscribers a)\<rparr>) s1)) of
                   Throw _ s' \<Rightarrow> s'
                 | Return _ s2 \<Rightarrow> state_of (send_json ws (Msg_subscribed i) s2))
           else s)
      | get_history i \<Rightarrow>
          (if truthy i then
             (case history_query dbOk i s of
                Throw _ s' \<Rightarrow> s'
              | Return es s1 \<Rightarrow> state_of (send_json ws (Msg_history i es) s1))
           else s)
      | other_message \<Rightarrow> s)"

definition on_close :: "WebSocket \<Rightarrow> state \<Rightarrow> state" where
  "on_close ws s =
     (let s1 = (case clientConnections s ws of
                  Some (Some i) \<Rightarrow>
                    (case lookup_audit i s of
                       None \<Rightarrow> s
                     | Some (k, audit) \<Rightarrow>
                         modify_audit k
                           (\<lambda>a. a\<lparr>subscribers := set_delete ws (subscribers a)\<rparr>) s)
                | _ \<Rightarrow> s)
      in s1\<lparr>clientConnections := (clientConnections s1)(ws := None)\<rparr>)"

subsection \<open>Histories of whole calls\<close>

text \<open>
  One step of the service: a whole call of an exported operation, a WebSocket event, or
  a change of a socket's state by the transport. A step that throws leaves the state it
  reached.
\<close>

datatype action =
    StartAudit nat string "nat option" nat nat nat bool bool
  | LogEvent nat AuditEventType AuditEventData nat bool
  | CompleteAudit nat bool "string option" "int option" "int option" nat nat bool bool
  | Connection WebSocket
  | Message WebSocket ClientMessage bool
  | Close WebSocket
  | Transport WebSocket ReadyState

fun step :: "action \<Rightarrow> state \<Rightarrow> state" where
  "step (StartAudit uid jt jid now now' newId dbOk dbOk') s =
     state_of (startAudit uid jt jid now now' newId dbOk dbOk' s)"
| "step (LogEvent k ty data now dbOk) s = state_of (logEvent k ty data now dbOk s)"
| "step (CompleteAudit k success preview actualWords targetWords now now' dbOk dbOk') s =
     state_of (completeAudit k success preview actualWords targetWords now now' dbOk dbOk' s)"
| "step (Connection ws) s = on_connection ws s"
| "step (Message ws message dbOk) s = on_message ws message dbOk s"
| "step (Close ws) s = on_close ws (s\<lparr>readyState := (readyState s)(ws := CLOSED)\<rparr>)"
| "step (Transport ws r) s = s\<lparr>readyState := (readyState s)(ws := r)\<rparr>"

fun run :: "action list \<Rightarrow> state \<Rightarrow> state" where
  "run [] s = s"
| "run (a # as) s = run as (step a s)"

subsection \<open>Histories with suspended calls\<close>

text \<open>
  \<open>BeginLog\<close>, \<open>BeginStart\<close> and \<open>BeginComplete\<close> run a call of \<open>logEvent\<close>, \<open>startAudit\<close>
  or \<open>completeAudit\<close> up to the \<open>await\<close> of the insert of its event and leave it
  suspended. \<open>Resume i dbOk now\<close> lets the database answer the \<open>i\<close>-th suspended call,
  which then runs on to its next \<open>await\<close> or to its end: a \<open>logEvent\<close> call pushes and
  broadcasts; if \<open>completeAudit\<close> made it, that call reads the clock (\<open>now\<close>), issues the
  status update and is suspended again; a \<open>completeAudit\<close> call suspended at the update
  notifies the subscribers and removes the audit. \<open>Call\<close> is a step of the previous
  section, during which nothing else runs.

  \<open>startAudit\<close> is suspended a first time at the insert of its session row (line 103).
  It has changed nothing by then, and nothing that runs meanwhile can refer to the id
  it is about to receive, so that wait and the code after it, up to the \<open>await\<close> inside
  \<open>logEvent\<close>, are one piece: \<open>BeginStart\<close>.
\<close>

datatype event =
    Call action
  | BeginLog nat AuditEventType AuditEventData nat
  | BeginStart nat string "nat option" nat nat nat bool
  | BeginComplete nat bool "string option" "int option" "int option" nat
  | Resume nat bool nat

definition suspend :: "suspended_call \<Rightarrow> state \<Rightarrow> state" where
  "suspend c s = s\<lparr>suspended := suspended s @ [c]\<rparr>"

fun resume_call :: "suspended_call \<Rightarrow> bool \<Rightarrow> nat \<Rightarrow> state \<Rightarrow> state" where
  "resume_call (AtInsert p c) dbOk now s =
     (case logEvent_resume p dbOk s of
        Throw _ s' \<Rightarrow> s'
      | Return _ s' \<Rightarrow>
          (case c of
             None \<Rightarrow> s'
           | Some (success, preview) \<Rightarrow>
               suspend (AtUpdate (p_auditLogId p) success preview now) s'))"
| "resume_call (AtUpdate k success preview at) dbOk now s =
     state_of (completeAudit_finish k success preview at dbOk s)"

fun fstep :: "event \<Rightarrow> state \<Rightarrow> state" where
  "fstep (Call act) s = step act s"
| "fstep (BeginLog k ty data now) s =
     (case logEvent_begin k ty data now s of (p, s1) \<Rightarrow> suspend (AtInsert p None) s1)"
| "fstep (BeginStart uid jt jid now now' newId dbOk) s =
     (case startAudit_open uid jt jid now newId dbOk s of
        Throw _ s' \<Rightarrow> s'
      | Return k s2 \<Rightarrow>
          (case logEvent_begin k job_started (JobStartedData jt None None) now' s2 of
             (p, s3) \<Rightarrow> suspend (AtInsert p None) s3))"
| "fstep (BeginComplete k success preview actualWords targetWords now) s =
     (case logEvent_begin k job_completed
             (completion_event k success actualWords targetWords s) now s of
        (p, s1) \<Rightarrow> suspend (AtInsert p (Some (success, preview))) s1)"
| "fstep (Resume i dbOk now) s =
     (if i < length (suspended s)
      then resume_call (suspended s ! i) dbOk now
             (s\<lparr>suspended := take i (suspended s) @ drop (Suc i) (suspended s)\<rparr>)
      else s)"

fun frun :: "event list \<Rightarrow> state \<Rightarrow> state" where
  "frun [] s = s"
| "frun (e # es) s = frun es (fstep e s)"

subsection \<open>Observations used by the properties\<close>


fun entry_for :: "WebSocket \<Rightarrow> nat \<Rightarrow> WebSocket \<times> ServerMessage \<Rightarrow> AuditLogEntry list" where
  "entry_for ws k (w, Msg_entry k' e) = (if w = ws \<and> k' = k then [e] else [])"
| "entry_for ws k (w, Msg_subscribed _) = []"
| "entry_for ws k (w, Msg_history _ _) = []"
| "entry_for ws k (w, Msg_completed _ _ _) = []"

definition received_entries :: "WebSocket \<Rightarrow> nat \<Rightarrow> state \<Rightarrow> AuditLogEntry list" where
  "received_entries ws k s = concat (map (entry_for ws k) (sent s))"

text \<open>The terminal notifications among the messages sent.\<close>

fun is_completed :: "WebSocket \<times> ServerMessage \<Rightarrow> bool" where
  "is_completed (w, Msg_completed _ _ _) = True"
| "is_completed (w, Msg_entry _ _) = False"
| "is_completed (w, Msg_subscribed _) = False"
| "is_completed (w, Msg_history _ _) = False"

text \<open>The content of an event apart from its sequence number.\<close>

definition payload :: "'a AuditLogEntry_scheme \<Rightarrow> AuditEventType \<times> AuditEventData \<times> nat" where
  "payload e = (eventType e, eventData e, timestamp e)"

text \<open>The rows stored for one session, in insertion order.\<close>

definition rows_of :: "nat \<Rightarrow> state \<Rightarrow> AuditLogEntryRow list" where
  "rows_of k s = filter (\<lambda>r. rowAuditLogId r = k) (auditLogEntries s)"





text \<open>
  The buffer of an active audit is the contiguous prefix of its event stream: the counter
  is the length of the buffer, and the entry at index \<open>i\<close> has sequence number \<open>i + 1\<close>.
\<close>

definition buffer_inv :: "ActiveAudit \<Rightarrow> bool" where
  "buffer_inv a \<longleftrightarrow>
     sequenceCounter a = length (entries a) \<and>
     (\<forall>i < length (entries a). sequenceNum (entries a ! i) = i + 1)"

definition registry_inv :: "state \<Rightarrow> bool" where
  "registry_inv s \<longleftrightarrow> (\<forall>k a. activeAudits s k = Some a \<longrightarrow> buffer_inv a)"



text \<open>
  The state \<open>completeAudit\<close> reaches before it notifies the subscribers: the
  \<open>job_completed\<close> event is logged and the status update is attempted.
\<close>

definition completion_state ::
  "nat \<Rightarrow> bool \<Rightarrow> string option \<Rightarrow> int option \<Rightarrow> int option \<Rightarrow> nat \<Rightarrow> nat \<Rightarrow> bool \<Rightarrow> bool
   \<Rightarrow> state \<Rightarrow> state" where
  "completion_state k success preview aw tw now now' dbOk dbOk' s =
     (let s1 = state_of (logEvent k job_completed (completion_event k success aw tw s)
                 now dbOk s)
      in state_of (update_auditLogs dbOk' k now' (if success then completed else failed)
                    (map_option (take 500) preview) s1))"

text \<open>The entry and the row that \<open>logEvent\<close> builds from an event and a sequence number.\<close>

definition entry_of :: "nat \<Rightarrow> AuditEventType \<times> AuditEventData \<times> nat \<Rightarrow> AuditLogEntry" where
  "entry_of n p = \<lparr>sequenceNum = n, timestamp = snd (snd p), eventType = fst p,
     eventData = fst (snd p)\<rparr>"

definition row_of :: "nat \<Rightarrow> AuditLogEntry \<Rightarrow> AuditLogEntryRow" where
  "row_of k e = \<lparr>sequenceNum = sequenceNum e, timestamp = timestamp e,
     eventType = eventType e, eventData = eventData e, rowAuditLogId = k\<rparr>"

text \<open>Consecutive sequence numbers after \<open>c\<close>, given to a list of events in order.\<close>

fun stamp :: "nat \<Rightarrow> (AuditEventType \<times> AuditEventData \<times> nat) list \<Rightarrow> AuditLogEntry list" where
  "stamp c [] = []"
| "stamp c (p # ps) = entry_of (Suc c) p # stamp (Suc c) ps"

subsection \<open>A small running system\<close>

text \<open>
  Session 7 has been started, and socket 3 has connected and subscribed to it.
\<close>

definition example_entry :: AuditLogEntry where
  "example_entry = \<lparr>sequenceNum = 1, timestamp = 2, eventType = job_started,
     eventData = JobStartedData ''reconstruction'' None None\<rparr>"

definition example_audit :: ActiveAudit where
  "example_audit = \<lparr>auditLogId = 7, userId = 1, jobType = ''reconstruction'', jobId = None,
     sequenceCounter = 1, subscribers = [3], entries = [example_entry], objectId = 0\<rparr>"

definition example_state :: state where
  "example_state =
     run [StartAudit 1 ''reconstruction'' None 1 2 7 True True,
          Connection 3,
          Message 3 (subscribe (JNum 7)) True] init_state"

text \<open>Four more events are logged for session 7.\<close>

definition report_state :: state where
  "report_state =
     run [LogEvent 7 db_query (DbQueryData ''select 1'' None ''jobs'' SELECT 1 2) 3 True,
          LogEvent 7 llm_call (LlmCallData ''m'' ''p'' None 1 2 ''in'' ''out'' 9) 4 True,
          LogEvent 7 db_query (DbQueryData ''select 2'' None ''jobs'' SELECT 0 2) 5 True,
          LogEvent 7 error (ErrorData ''E'' ''m'' ''c'' None False) 6 True] example_state"


subsection \<open>Calls in flight\<close>

text \<open>
  A \<open>logEvent\<close> call suspended at its insert that was made for id \<open>k\<close> and holds the
  audit object \<open>ob\<close>: when it resumes it pushes its entry to that object.
\<close>

fun holds :: "nat \<Rightarrow> nat \<Rightarrow> suspended_call \<Rightarrow> bool" where
  "holds k ob (AtInsert p c) = (p_auditLogId p = k \<and> p_object p = Some ob)"
| "holds k ob (AtUpdate _ _ _ _) = False"

text \<open>
  The \<open>logEvent\<close> calls in flight for the audit registered under \<open>k\<close>: they have taken
  a number from its counter and have not yet pushed their entry.
\<close>

definition in_flight :: "nat \<Rightarrow> state \<Rightarrow> suspended_call list" where
  "in_flight k s =
     (case activeAudits s k of
        None \<Rightarrow> []
      | Some a \<Rightarrow> filter (holds k (objectId a)) (suspended s))"

text \<open>An event in which a \<open>logEvent\<close> call for id \<open>k\<close> begins.\<close>

fun logs_to :: "nat \<Rightarrow> action \<Rightarrow> bool" where
  "logs_to k (LogEvent k' ty data now dbOk) = (k' = k)"
| "logs_to k (CompleteAudit k' success preview aw tw now now' dbOk dbOk') = (k' = k)"
| "logs_to k (StartAudit _ _ _ _ _ _ _ _) = False"
| "logs_to k (Connection _) = False"
| "logs_to k (Message _ _ _) = False"
| "logs_to k (Close _) = False"
| "logs_to k (Transport _ _) = False"

fun begins_log :: "nat \<Rightarrow> event \<Rightarrow> bool" where
  "begins_log k (Call act) = logs_to k act"
| "begins_log k (BeginLog k' ty data now) = (k' = k)"
| "begins_log k (BeginComplete k' success preview aw tw now) = (k' = k)"
| "begins_log k (BeginStart _ _ _ _ _ _ _) = False"
| "begins_log k (Resume _ _ _) = False"

text \<open>
  A history in which the \<open>logEvent\<close> calls for session \<open>k\<close> do not overlap: none begins
  while another is in flight for the audit registered under \<open>k\<close>. (The \<open>job_started\<close>
  call of \<open>startAudit\<close> is in flight for the audit that \<open>startAudit\<close> has just created.)
\<close>

fun one_at_a_time :: "nat \<Rightarrow> event list \<Rightarrow> state \<Rightarrow> bool" where
  "one_at_a_time k [] s = True"
| "one_at_a_time k (e # es) s =
     ((\<not> begins_log k e \<or> in_flight k s = []) \<and> one_at_a_time k es (fstep e s))"

text \<open>The identities of the audit objects in use are below the allocation counter.\<close>

definition fresh :: "state \<Rightarrow> bool" where
  "fresh s \<longleftrightarrow>
     (\<forall>k a. activeAudits s k = Some a \<longrightarrow> objectId a < objectCount s) \<and>
     (\<forall>c \<in> set (suspended s). \<forall>k ob. holds k ob c \<longrightarrow> ob < objectCount s)"

text \<open>
  The counter of every audit counts its buffered entries and the calls in flight for it.
\<close>

definition counted :: "state \<Rightarrow> bool" where
  "counted s \<longleftrightarrow>
     (\<forall>k a. activeAudits s k = Some a \<longrightarrow>
        sequenceCounter a = length (entries a) + length (in_flight k s))"

text \<open>
  The buffer of session \<open>k\<close> is numbered from 1 without a gap, at most one call is in
  flight for it, and that call holds the number the counter shows.
\<close>

fun number_of :: "suspended_call \<Rightarrow> nat" where
  "number_of (AtInsert p c) = sequenceNum (p_entry p)"
| "number_of (AtUpdate _ _ _ _) = 0"

definition ordered :: "nat \<Rightarrow> state \<Rightarrow> bool" where
  "ordered k s \<longleftrightarrow>
     (\<forall>a. activeAudits s k = Some a \<longrightarrow>
        (\<forall>i < length (entries a). sequenceNum (entries a ! i) = i + 1) \<and>
        length (in_flight k s) \<le> 1 \<and>
        (\<forall>c \<in> set (in_flight k s). number_of c = sequenceCounter a))"

subsection \<open>The time after a subscription\<close>







section \<open>Properties\<close>

subsection \<open>What one logEvent call does\<close>

lemma broadcast_loop_eq:
  "broadcast_loop wss m s =
     Return () (s\<lparr>sent := sent s @
        map (\<lambda>w. (w, m)) (filter (\<lambda>w. readyState s w = OPEN) wss)\<rparr>)"
  by (induction wss arbitrary: s) (simp_all add: ws_send_def)

lemmas logEvent_defs = logEvent_def logEvent_begin_def logEvent_resume_def push_entry_def

lemma logEvent_begin_active:
  assumes "activeAudits s k = Some a"
  shows "logEvent_begin k ty data now s =
     (\<lparr>p_auditLogId = k, p_object = Some (objectId a),
       p_entry = \<lparr>sequenceNum = Suc (sequenceCounter a), timestamp = now, eventType = ty,
                   eventData = data\<rparr>\<rparr>,
      s\<lparr>activeAudits := (activeAudits s)(k \<mapsto>
           a\<lparr>sequenceCounter := Suc (sequenceCounter a)\<rparr>)\<rparr>)"
  using assms by (simp add: logEvent_begin_def Let_def modify_audit_def)

lemma logEvent_begin_inactive:
  assumes "activeAudits s k = None"
  shows "logEvent_begin k ty data now s =
     (\<lparr>p_auditLogId = k, p_object = None,
       p_entry = \<lparr>sequenceNum = 1, timestamp = now, eventType = ty, eventData = data\<rparr>\<rparr>, s)"
  using assms by (simp add: logEvent_begin_def Let_def)

lemma logEvent_active:
  assumes "activeAudits s k = Some a" and "stringifiable data"
  shows "logEvent k ty data now dbOk s =
     Return () (s\<lparr>activeAudits := (activeAudits s)(k \<mapsto>
           a\<lparr>sequenceCounter := Suc (sequenceCounter a),
             entries := entries a @ [\<lparr>sequenceNum = Suc (sequenceCounter a), timestamp = now,
                                      eventType = ty, eventData = data\<rparr>]\<rparr>),
         auditLogEntries := (if dbOk
           then auditLogEntries s @ [\<lparr>sequenceNum = Suc (sequenceCounter a), timestamp = now,
                  eventType = ty, eventData = data, rowAuditLogId = k\<rparr>]
           else auditLogEntries s),
         sent := sent s @ map (\<lambda>w. (w, Msg_entry k \<lparr>sequenceNum = Suc (sequenceCounter a),
                    timestamp = now, eventType = ty, eventData = data\<rparr>))
                  (filter (\<lambda>w. readyState s w = OPEN) (subscribers a))\<rparr>)"
  using assms
  by (simp add: logEvent_defs Let_def modify_audit_def insert_auditLogEntries_def
      broadcastEntry_def broadcast_loop_eq)

lemma logEvent_active_throw:
  assumes "activeAudits s k = Some a" and "\<not> stringifiable data"
  shows "logEvent k ty data now dbOk s =
     Throw TypeError (s\<lparr>activeAudits := (activeAudits s)(k \<mapsto>
           a\<lparr>sequenceCounter := Suc (sequenceCounter a),
             entries := entries a @ [\<lparr>sequenceNum = Suc (sequenceCounter a), timestamp = now,
                                      eventType = ty, eventData = data\<rparr>]\<rparr>),
         auditLogEntries := (if dbOk
           then auditLogEntries s @ [\<lparr>sequenceNum = Suc (sequenceCounter a), timestamp = now,
                  eventType = ty, eventData = data, rowAuditLogId = k\<rparr>]
           else auditLogEntries s)\<rparr>)"
  using assms
  by (simp add: logEvent_defs Let_def modify_audit_def insert_auditLogEntries_def
      broadcastEntry_def)

lemma logEvent_active_state:
  assumes "activeAudits s k = Some a"
  shows "state_of (logEvent k ty data now dbOk s) =
     s\<lparr>activeAudits := (activeAudits s)(k \<mapsto>
           a\<lparr>sequenceCounter := Suc (sequenceCounter a),
             entries := entries a @ [\<lparr>sequenceNum = Suc (sequenceCounter a), timestamp = now,
                                      eventType = ty, eventData = data\<rparr>]\<rparr>),
         auditLogEntries := (if dbOk
           then auditLogEntries s @ [\<lparr>sequenceNum = Suc (sequenceCounter a), timestamp = now,
                  eventType = ty, eventData = data, rowAuditLogId = k\<rparr>]
           else auditLogEntries s),
         sent := sent s @ (if stringifiable data
           then map (\<lambda>w. (w, Msg_entry k \<lparr>sequenceNum = Suc (sequenceCounter a),
                    timestamp = now, eventType = ty, eventData = data\<rparr>))
                  (filter (\<lambda>w. readyState s w = OPEN) (subscribers a))
           else [])\<rparr>"
  using assms
  by (cases "stringifiable data") (simp_all add: logEvent_active logEvent_active_throw)

lemma logEvent_inactive:
  assumes "activeAudits s k = None"
  shows "logEvent k ty data now dbOk s =
     Return () (if dbOk
       then s\<lparr>auditLogEntries := auditLogEntries s @
               [\<lparr>sequenceNum = 1, timestamp = now, eventType = ty, eventData = data,
                 rowAuditLogId = k\<rparr>]\<rparr>
       else s)"
  using assms
  by (simp add: logEvent_defs Let_def insert_auditLogEntries_def)

lemmas eval_defs = logEvent_defs Let_def modify_audit_def insert_auditLogEntries_def
  broadcastEntry_def ws_send_def send_json_def startAudit_def startAudit_open_def
  insert_auditLogs_def completeAudit_def completeAudit_finish_def completion_event_def
  update_auditLogs_def on_connection_def on_message_def on_close_def lookup_audit_def
  history_query_def set_add_def set_delete_def init_state_def suspend_def

lemma example_state_eq:
  "example_state =
     \<lparr>activeAudits = [7 \<mapsto> example_audit],
      clientConnections = [3 \<mapsto> Some (JNum 7)],
      auditLogs = [\<lparr>log_id = 7, log_userId = 1, log_jobType = ''reconstruction'',
                    log_jobId = None, log_startedAt = 1, log_completedAt = None,
                    log_status = running, log_finalOutputPreview = None\<rparr>],
      auditLogEntries = [\<lparr>sequenceNum = 1, timestamp = 2, eventType = job_started,
                    eventData = JobStartedData ''reconstruction'' None None,
                    rowAuditLogId = 7\<rparr>],
      readyState = (\<lambda>_. OPEN),
      sent = [(3, Msg_entry 7 example_entry), (3, Msg_subscribed (JNum 7))],
      suspended = [], objectCount = 1\<rparr>"
  by (simp add: example_state_def example_audit_def example_entry_def eval_defs)

subsection \<open>Payload truncation\<close>

text \<open>
  C9. The row that \<open>logDbQuery\<close> stores carries the first 500 characters of the SQL text,
  so at most 500, and every other field as given; the row that \<open>logLlmCall\<close> stores
  carries the first 200 characters of the prompt and of the response, and every other
  field as given.
\<close>

theorem preview_truncation:
  "eventData (last (auditLogEntries
        (state_of (logDbQuery k sqlText tbl oper rows dur ps now True s))))
     = DbQueryData (take 500 sqlText) ps tbl oper rows dur
   \<and> length (sql (eventData (last (auditLogEntries
        (state_of (logDbQuery k sqlText tbl oper rows dur ps now True s)))))) \<le> 500
   \<and> eventData (last (auditLogEntries
        (state_of (logLlmCall k mdl purp inTok outTok prompt response dur chunk now True s))))
     = LlmCallData mdl purp chunk inTok outTok (take 200 prompt) (take 200 response) dur
   \<and> length (promptPreview (eventData (last (auditLogEntries
        (state_of (logLlmCall k mdl purp inTok outTok prompt response dur chunk now True s))))))
       \<le> 200
   \<and> length (responsePreview (eventData (last (auditLogEntries
        (state_of (logLlmCall k mdl purp inTok outTok prompt response dur chunk now True s))))))
       \<le> 200"
  by (cases "activeAudits s k")
     (simp_all add: logDbQuery_def logLlmCall_def logEvent_active_state logEvent_inactive)

subsection \<open>Submitting to a session that is not active\<close>

text \<open>
  C3, as stated: a \<open>logEvent\<close> call for a session without an active audit fails and changes
  nothing. It does not hold: in the initial state, where no audit is active, the call for
  session 7 returns and leaves a row in \<open>auditLogEntries\<close>.
\<close>

theorem logEvent_unknown_session_counterexample:
  "logEvent 7 error (ErrorData ''E'' ''m'' ''c'' None False) 3 True init_state
     = Return () (init_state\<lparr>auditLogEntries :=
         [\<lparr>sequenceNum = 1, timestamp = 3, eventType = error,
           eventData = ErrorData ''E'' ''m'' ''c'' None False, rowAuditLogId = 7\<rparr>]\<rparr>)"
  by (simp add: eval_defs)

text \<open>
  C3, amended: a \<open>logEvent\<close> call for a session without an active audit returns normally;
  it buffers and broadcasts nothing and leaves the registry as it is, and it still makes
  the durable insert, of the event with sequence number 1.
\<close>

theorem logEvent_unknown_session:
  assumes "activeAudits s k = None"
  shows "logEvent k ty data now dbOk s =
     Return () (if dbOk
       then s\<lparr>auditLogEntries := auditLogEntries s @
               [\<lparr>sequenceNum = 1, timestamp = now, eventType = ty, eventData = data,
                 rowAuditLogId = k\<rparr>]\<rparr>
       else s)"
  using assms by (rule logEvent_inactive)

theorem logEvent_unknown_session_witness:
  "activeAudits init_state 7 = None \<and>
   logEvent 7 job_completed (JobCompletedData ''unknown'' None None True) 9 False init_state
     = Return () init_state"
  using logEvent_unknown_session [of init_state 7 job_completed
      "JobCompletedData ''unknown'' None None True" 9 False]
  by (simp add: init_state_def)

subsection \<open>Effects of the operations on one session\<close>

lemma ws_send_proj [simp]:
  "activeAudits (state_of (ws_send ws m s)) = activeAudits s"
  "readyState (state_of (ws_send ws m s)) = readyState s"
  "clientConnections (state_of (ws_send ws m s)) = clientConnections s"
  "auditLogs (state_of (ws_send ws m s)) = auditLogs s"
  "auditLogEntries (state_of (ws_send ws m s)) = auditLogEntries s"
  "suspended (state_of (ws_send ws m s)) = suspended s"
  "objectCount (state_of (ws_send ws m s)) = objectCount s"
  by (simp_all add: ws_send_def split: ReadyState.splits)

lemma send_json_proj [simp]:
  "activeAudits (state_of (send_json ws m s)) = activeAudits s"
  "readyState (state_of (send_json ws m s)) = readyState s"
  "clientConnections (state_of (send_json ws m s)) = clientConnections s"
  "auditLogs (state_of (send_json ws m s)) = auditLogs s"
  "auditLogEntries (state_of (send_json ws m s)) = auditLogEntries s"
  "suspended (state_of (send_json ws m s)) = suspended s"
  "objectCount (state_of (send_json ws m s)) = objectCount s"
  by (simp_all add: send_json_def)

lemma send_all_proj [simp]:
  "activeAudits (state_of (send_all wss m s)) = activeAudits s"
  "readyState (state_of (send_all wss m s)) = readyState s"
  "clientConnections (state_of (send_all wss m s)) = clientConnections s"
  "auditLogs (state_of (send_all wss m s)) = auditLogs s"
  "auditLogEntries (state_of (send_all wss m s)) = auditLogEntries s"
  "suspended (state_of (send_all wss m s)) = suspended s"
  "objectCount (state_of (send_all wss m s)) = objectCount s"
  by (induction wss arbitrary: s;
      simp add: send_json_def ws_send_def split: ReadyState.splits)+

lemma send_entries_proj [simp]:
  "activeAudits (state_of (send_entries ws k es s)) = activeAudits s"
  "readyState (state_of (send_entries ws k es s)) = readyState s"
  "clientConnections (state_of (send_entries ws k es s)) = clientConnections s"
  "auditLogs (state_of (send_entries ws k es s)) = auditLogs s"
  "auditLogEntries (state_of (send_entries ws k es s)) = auditLogEntries s"
  "suspended (state_of (send_entries ws k es s)) = suspended s"
  "objectCount (state_of (send_entries ws k es s)) = objectCount s"
  by (induction es arbitrary: s;
      simp add: send_json_def ws_send_def split: ReadyState.splits)+

lemma state_of_case [simp]:
  "state_of (case r of Return x s' \<Rightarrow> Return (f x) (g s') | Throw e s' \<Rightarrow> Throw e s')
     = (case r of Return x s' \<Rightarrow> g s' | Throw e s' \<Rightarrow> s')"
  by (cases r) simp_all

lemma buffer_inv_push:
  assumes "buffer_inv a"
  shows "buffer_inv (a\<lparr>sequenceCounter := Suc (sequenceCounter a),
            entries := entries a @ [\<lparr>sequenceNum = Suc (sequenceCounter a), timestamp = now,
                                     eventType = ty, eventData = data\<rparr>]\<rparr>)"
  using assms by (auto simp: buffer_inv_def nth_append less_Suc_eq)

lemma registry_inv_logEvent:
  assumes "registry_inv s"
  shows "registry_inv (state_of (logEvent k ty data now dbOk s))"
proof (cases "activeAudits s k")
  case None
  with assms show ?thesis by (simp add: logEvent_inactive registry_inv_def)
next
  case (Some a)
  with assms have "buffer_inv a" by (simp add: registry_inv_def)
  then show ?thesis using assms Some
    by (simp add: logEvent_active_state registry_inv_def buffer_inv_push)
qed

lemma startAudit_eq:
  "startAudit uid jt jid now now' newId dbOk dbOk' s =
     (if dbOk then
        Return newId (s\<lparr>activeAudits := (activeAudits s)(newId \<mapsto>
            \<lparr>auditLogId = newId, userId = uid, jobType = jt, jobId = jid,
             sequenceCounter = 1, subscribers = [],
             entries = [\<lparr>sequenceNum = 1, timestamp = now', eventType = job_started,
                         eventData = JobStartedData jt None None\<rparr>],
             objectId = objectCount s\<rparr>),
          auditLogs := auditLogs s @
            [\<lparr>log_id = newId, log_userId = uid, log_jobType = jt, log_jobId = jid,
              log_startedAt = now, log_completedAt = None, log_status = running,
              log_finalOutputPreview = None\<rparr>],
          auditLogEntries := (if dbOk'
            then auditLogEntries s @ [\<lparr>sequenceNum = 1, timestamp = now',
                   eventType = job_started, eventData = JobStartedData jt None None,
                   rowAuditLogId = newId\<rparr>]
            else auditLogEntries s),
          objectCount := Suc (objectCount s)\<rparr>)
      else Throw PersistenceError s)"
  by (simp add: startAudit_def startAudit_open_def insert_auditLogs_def Let_def
      logEvent_active)

lemma registry_inv_startAudit:
  assumes "registry_inv s"
  shows "registry_inv (state_of (startAudit uid jt jid now now' newId dbOk dbOk' s))"
  using assms by (simp add: startAudit_eq registry_inv_def buffer_inv_def)

lemma returns_logEvent:
  "stringifiable data \<Longrightarrow> \<exists>s'. logEvent k ty data now dbOk s = Return () s'"
  by (cases "activeAudits s k") (simp_all add: logEvent_active logEvent_inactive)

lemma update_auditLogs_proj [simp]:
  "activeAudits (state_of (update_auditLogs dbOk k at st p s)) = activeAudits s"
  "readyState (state_of (update_auditLogs dbOk k at st p s)) = readyState s"
  "clientConnections (state_of (update_auditLogs dbOk k at st p s)) = clientConnections s"
  "auditLogEntries (state_of (update_auditLogs dbOk k at st p s)) = auditLogEntries s"
  "sent (state_of (update_auditLogs dbOk k at st p s)) = sent s"
  "suspended (state_of (update_auditLogs dbOk k at st p s)) = suspended s"
  "objectCount (state_of (update_auditLogs dbOk k at st p s)) = objectCount s"
  by (simp_all add: update_auditLogs_def)

lemma completeAudit_eq:
  "completeAudit k success preview aw tw now now' dbOk dbOk' s =
     (let s2 = completion_state k success preview aw tw now now' dbOk dbOk' s
      in case (case activeAudits s2 k of
                 None \<Rightarrow> Return () s2
               | Some audit \<Rightarrow>
                   send_all (subscribers audit)
                     (Msg_completed k success (length (entries audit))) s2) of
           Throw e s' \<Rightarrow> Throw e s'
         | Return _ s3 \<Rightarrow> Return () (s3\<lparr>activeAudits := (activeAudits s3)(k := None)\<rparr>))"
proof -
  have "stringifiable (completion_event k success aw tw s)"
    by (simp add: completion_event_def)
  then obtain s1 where
    "logEvent k job_completed (completion_event k success aw tw s) now dbOk s = Return () s1"
    using returns_logEvent by blast
  then show ?thesis
    by (simp add: completeAudit_def completeAudit_finish_def completion_state_def Let_def
        update_auditLogs_def split: option.splits)
qed


lemma completion_state_readyState [simp]:
  "readyState (completion_state k success preview aw tw now now' dbOk dbOk' s) = readyState s"
  by (cases "activeAudits s k")
     (simp_all add: completion_state_def Let_def logEvent_active_state logEvent_inactive)




lemma received_ws_send:
  "received_entries ws k (state_of (ws_send w m s))
     = received_entries ws k s @ (if readyState s w = OPEN then entry_for ws k (w, m) else [])"
  by (simp add: ws_send_def received_entries_def split: ReadyState.splits)

lemma received_send_json:
  "received_entries ws k (state_of (send_json w m s))
     = received_entries ws k s
       @ (if readyState s w = OPEN \<and> stringify_ok m then entry_for ws k (w, m) else [])"
  by (simp add: send_json_def received_ws_send)

lemma received_send_all_completed [simp]:
  "received_entries ws k (state_of (send_all wss (Msg_completed k' b n) s))
     = received_entries ws k s"
proof (induction wss arbitrary: s)
  case Nil
  then show ?case by simp
next
  case (Cons w wss)
  have a: "received_entries ws k (state_of (send_json w (Msg_completed k' b n) s))
     = received_entries ws k s"
    by (simp add: received_send_json)
  show ?case
  proof (cases "send_json w (Msg_completed k' b n) s")
    case (Return u s')
    with a have "received_entries ws k s' = received_entries ws k s" by simp
    with Return Cons.IH [of s'] show ?thesis by simp
  next
    case (Throw e s')
    with a show ?thesis by simp
  qed
qed



lemma completeAudit_state:
  "\<exists>s3. activeAudits s3 = activeAudits (completion_state k success preview aw tw now now' dbOk dbOk' s)
     \<and> readyState s3 = readyState s
     \<and> auditLogEntries s3
           = auditLogEntries (completion_state k success preview aw tw now now' dbOk dbOk' s)
     \<and> (\<forall>ws j. received_entries ws j s3
           = received_entries ws j (completion_state k success preview aw tw now now' dbOk dbOk' s))
     \<and> ((\<exists>e. completeAudit k success preview aw tw now now' dbOk dbOk' s = Throw e s3)
        \<or> completeAudit k success preview aw tw now now' dbOk dbOk' s
             = Return () (s3\<lparr>activeAudits := (activeAudits s3)(k := None)\<rparr>))"
proof -
  let ?s2 = "completion_state k success preview aw tw now now' dbOk dbOk' s"
  show ?thesis
  proof (cases "activeAudits ?s2 k")
    case None
    then show ?thesis
      by (intro exI[of _ ?s2]) (simp add: completeAudit_eq Let_def)
  next
    case (Some a)
    let ?r = "send_all (subscribers a) (Msg_completed k success (length (entries a))) ?s2"
    have p: "activeAudits (state_of ?r) = activeAudits ?s2" "readyState (state_of ?r) = readyState s"
      "auditLogEntries (state_of ?r) = auditLogEntries ?s2"
      "\<forall>ws j. received_entries ws j (state_of ?r) = received_entries ws j ?s2"
      by simp_all
    show ?thesis
    proof (cases ?r)
      case (Return u s3)
      with p have "activeAudits s3 = activeAudits ?s2" "readyState s3 = readyState s"
        "auditLogEntries s3 = auditLogEntries ?s2"
        "\<forall>ws j. received_entries ws j s3 = received_entries ws j ?s2" by simp_all
      moreover have "completeAudit k success preview aw tw now now' dbOk dbOk' s
             = Return () (s3\<lparr>activeAudits := (activeAudits s3)(k := None)\<rparr>)"
        using Some Return by (simp add: completeAudit_eq Let_def)
      ultimately show ?thesis by blast
    next
      case (Throw e s3)
      with p have "activeAudits s3 = activeAudits ?s2" "readyState s3 = readyState s"
        "auditLogEntries s3 = auditLogEntries ?s2"
        "\<forall>ws j. received_entries ws j s3 = received_entries ws j ?s2" by simp_all
      moreover have "completeAudit k success preview aw tw now now' dbOk dbOk' s = Throw e s3"
        using Some Throw by (simp add: completeAudit_eq Let_def)
      ultimately show ?thesis by blast
    qed
  qed
qed

lemma handler_tail_proj [simp]:
  "activeAudits (case r of Throw e s' \<Rightarrow> s' | Return u s2 \<Rightarrow> state_of (send_json w m s2))
     = activeAudits (state_of r)"
  "readyState (case r of Throw e s' \<Rightarrow> s' | Return u s2 \<Rightarrow> state_of (send_json w m s2))
     = readyState (state_of r)"
  "auditLogEntries (case r of Throw e s' \<Rightarrow> s' | Return u s2 \<Rightarrow> state_of (send_json w m s2))
     = auditLogEntries (state_of r)"
  "suspended (case r of Throw e s' \<Rightarrow> s' | Return u s2 \<Rightarrow> state_of (send_json w m s2))
     = suspended (state_of r)"
  "objectCount (case r of Throw e s' \<Rightarrow> s' | Return u s2 \<Rightarrow> state_of (send_json w m s2))
     = objectCount (state_of r)"
  by (cases r; simp)+

lemma modify_audit_proj [simp]:
  "readyState (modify_audit k f s) = readyState s"
  "auditLogEntries (modify_audit k f s) = auditLogEntries s"
  "sent (modify_audit k f s) = sent s"
  "clientConnections (modify_audit k f s) = clientConnections s"
  "suspended (modify_audit k f s) = suspended s"
  "objectCount (modify_audit k f s) = objectCount s"
  by (simp_all add: modify_audit_def split: option.splits)

lemma modify_audit_audits:
  "activeAudits (modify_audit k f s) k' =
     (if k' = k then map_option f (activeAudits s k) else activeAudits s k')"
  by (simp add: modify_audit_def split: option.splits)

lemma history_query_proj [simp]:
  "state_of (history_query ok i s) = s"
  by (simp add: history_query_def getAuditEntries_def split: option.splits)

lemma on_message_audits:
  "activeAudits (on_message w m ok s) =
     (case m of
        subscribe i \<Rightarrow>
          (case audit_key i of
             None \<Rightarrow> activeAudits s
           | Some k' \<Rightarrow>
               if truthy i
               then activeAudits
                      (modify_audit k' (\<lambda>a. a\<lparr>subscribers := set_add w (subscribers a)\<rparr>) s)
               else activeAudits s)
      | get_history i \<Rightarrow> activeAudits s
      | other_message \<Rightarrow> activeAudits s)"
proof (cases m)
  case (subscribe i)
  then show ?thesis
    by (auto simp add: on_message_def Let_def lookup_audit_def modify_audit_def
        split: option.splits)
next
  case (get_history i)
  have "activeAudits (case history_query ok i s of
                Throw e s' \<Rightarrow> s'
              | Return es s1 \<Rightarrow> state_of (send_json w (Msg_history i es) s1)) = activeAudits s"
    by (cases "history_query ok i s")
       (use history_query_proj [of ok i s] in simp_all)
  with get_history show ?thesis by (simp add: on_message_def)
next
  case other_message
  then show ?thesis by (simp add: on_message_def)
qed

lemma on_message_proj [simp]:
  "readyState (on_message w m ok s) = readyState s"
  "auditLogEntries (on_message w m ok s) = auditLogEntries s"
  "suspended (on_message w m ok s) = suspended s"
  "objectCount (on_message w m ok s) = objectCount s"
proof -
  have h: "readyState (case history_query ok i s of
                Throw e s' \<Rightarrow> s'
              | Return es s1 \<Rightarrow> state_of (send_json w (Msg_history i es) s1)) = readyState s
     \<and> auditLogEntries (case history_query ok i s of
                Throw e s' \<Rightarrow> s'
              | Return es s1 \<Rightarrow> state_of (send_json w (Msg_history i es) s1))
          = auditLogEntries s
     \<and> suspended (case history_query ok i s of
                Throw e s' \<Rightarrow> s'
              | Return es s1 \<Rightarrow> state_of (send_json w (Msg_history i es) s1)) = suspended s
     \<and> objectCount (case history_query ok i s of
                Throw e s' \<Rightarrow> s'
              | Return es s1 \<Rightarrow> state_of (send_json w (Msg_history i es) s1)) = objectCount s"
    for i
    by (cases "history_query ok i s")
       (use history_query_proj [of ok i s] in simp_all)
  show "readyState (on_message w m ok s) = readyState s"
    "auditLogEntries (on_message w m ok s) = auditLogEntries s"
    "suspended (on_message w m ok s) = suspended s"
    "objectCount (on_message w m ok s) = objectCount s"
    using h
    by (cases m; simp add: on_message_def Let_def lookup_audit_def split: option.splits)+
qed

lemma on_close_proj [simp]:
  "auditLogEntries (on_close w s) = auditLogEntries s"
  "suspended (on_close w s) = suspended s"
  "objectCount (on_close w s) = objectCount s"
  "sent (on_close w s) = sent s"
  "readyState (on_close w s) = readyState s"
  by (simp_all add: on_close_def Let_def lookup_audit_def split: option.splits)

lemma on_close_audits:
  "activeAudits (on_close w s) k =
     (case clientConnections s w of
        Some (Some i) \<Rightarrow>
          if audit_key i = Some k
          then map_option (\<lambda>a. a\<lparr>subscribers := set_delete w (subscribers a)\<rparr>)
                 (activeAudits s k)
          else activeAudits s k
      | _ \<Rightarrow> activeAudits s k)"
  by (auto simp add: on_close_def Let_def lookup_audit_def modify_audit_def
      split: option.splits)




lemma received_entries_audits [simp]:
  "received_entries ws k (s\<lparr>activeAudits := m\<rparr>) = received_entries ws k s"
  "received_entries ws k (s\<lparr>auditLogEntries := es\<rparr>) = received_entries ws k s"
  "received_entries ws k (s\<lparr>auditLogs := ls\<rparr>) = received_entries ws k s"
  "received_entries ws k (s\<lparr>clientConnections := c\<rparr>) = received_entries ws k s"
  "received_entries ws k (s\<lparr>readyState := r\<rparr>) = received_entries ws k s"
  "received_entries ws k (s\<lparr>suspended := cs\<rparr>) = received_entries ws k s"
  "received_entries ws k (s\<lparr>objectCount := n\<rparr>) = received_entries ws k s"
  by (simp_all add: received_entries_def)

lemma received_modify_audit [simp]:
  "received_entries ws k (modify_audit k' f s) = received_entries ws k s"
  by (simp add: received_entries_def)

lemma rows_of_simps [simp]:
  "rows_of k (s\<lparr>activeAudits := m\<rparr>) = rows_of k s"
  "rows_of k (s\<lparr>sent := xs\<rparr>) = rows_of k s"
  "rows_of k (s\<lparr>auditLogs := ls\<rparr>) = rows_of k s"
  "rows_of k (s\<lparr>clientConnections := c\<rparr>) = rows_of k s"
  "rows_of k (s\<lparr>readyState := r\<rparr>) = rows_of k s"
  "rows_of k (s\<lparr>suspended := cs\<rparr>) = rows_of k s"
  "rows_of k (s\<lparr>objectCount := n\<rparr>) = rows_of k s"
  by (simp_all add: rows_of_def)










lemma length_stamp [simp]: "length (stamp c ps) = length ps"
  by (induction ps arbitrary: c) simp_all


lemma payload_row_of [simp]: "payload (row_of k e) = payload e"
  by (simp add: payload_def row_of_def)

lemma sequenceNum_row_of [simp]: "sequenceNum (row_of k e) = sequenceNum e"
  by (simp add: row_of_def)





lemma buffer_inv_subscribers [simp]: "buffer_inv (a\<lparr>subscribers := x\<rparr>) = buffer_inv a"
  by (simp add: buffer_inv_def)

lemma completion_state_logEvent:
  "activeAudits (completion_state k success preview aw tw now now' dbOk dbOk' s)
     = activeAudits (state_of (logEvent k job_completed
                 (completion_event k success aw tw s) now dbOk s))"
  by (simp add: completion_state_def Let_def)

lemma registry_inv_step:
  assumes "registry_inv s"
  shows "registry_inv (step act s)"
proof (cases act)
  case (StartAudit uid jt jid now now' newId dbOk dbOk')
  with assms show ?thesis by (simp add: registry_inv_startAudit)
next
  case (LogEvent k ty data now dbOk)
  with assms show ?thesis by (simp add: registry_inv_logEvent)
next
  case (CompleteAudit k success preview aw tw now now' dbOk dbOk')
  obtain s3 where s3: "activeAudits s3 = activeAudits (completion_state k success preview aw tw now now' dbOk dbOk' s)"
    and r: "(\<exists>e. completeAudit k success preview aw tw now now' dbOk dbOk' s = Throw e s3)
        \<or> completeAudit k success preview aw tw now now' dbOk dbOk' s
             = Return () (s3\<lparr>activeAudits := (activeAudits s3)(k := None)\<rparr>)"
    using completeAudit_state [of k success preview aw tw now now' dbOk dbOk' s] by blast
  have "registry_inv s3"
    using registry_inv_logEvent [OF assms] s3
    by (simp add: registry_inv_def completion_state_logEvent)
  then have "registry_inv (s3\<lparr>activeAudits := (activeAudits s3)(k := None)\<rparr>)"
    by (simp add: registry_inv_def)
  with \<open>registry_inv s3\<close> r CompleteAudit show ?thesis by auto
next
  case (Connection w)
  with assms show ?thesis by (simp add: on_connection_def registry_inv_def)
next
  case (Message w m ok)
  with assms show ?thesis
    by (cases m)
       (auto simp add: registry_inv_def on_message_audits modify_audit_audits
          split: if_splits option.splits)
next
  case (Close w)
  with assms show ?thesis
    by (auto simp add: registry_inv_def on_close_audits
        split: option.splits if_splits)
next
  case (Transport w r)
  with assms show ?thesis by (simp add: registry_inv_def)
qed



lemma registry_inv_run: "registry_inv s \<Longrightarrow> registry_inv (run acts s)"
  by (induction acts arbitrary: s) (simp_all add: registry_inv_step)

lemma registry_inv_init: "registry_inv init_state"
  by (simp add: registry_inv_def init_state_def)



subsection \<open>Publishing after a subscriber has gone\<close>






subsection \<open>A failed insert does not stop live delivery\<close>

text \<open>
  C4, as stated: when the insert fails for an event of an active session, the event is
  still broadcast and no exception escapes \<open>logEvent\<close>. It does not hold for every
  payload: \<open>keyFields\<close> is of type \<open>any\<close>, and for a \<open>BigInt\<close> in it the insert fails, the
  counter is incremented and the entry is pushed, but \<open>JSON.stringify\<close> in
  \<open>broadcastEntry\<close> (line 355, outside the \<open>try\<close> of lines 153 to 157) throws: \<open>logEvent\<close>
  throws a \<open>TypeError\<close> and the subscriber of session 7 is sent nothing.
\<close>

theorem failed_insert_counterexample:
  "logEvent 7 db_insert (DbInsertData ''jobs'' 4 (JBigInt 10) 12) 5 False example_state
     = Throw TypeError
         (example_state\<lparr>activeAudits := [7 \<mapsto> example_audit\<lparr>sequenceCounter := 2,
             entries := [example_entry,
               \<lparr>sequenceNum = 2, timestamp = 5, eventType = db_insert,
                 eventData = DbInsertData ''jobs'' 4 (JBigInt 10) 12\<rparr>]\<rparr>]\<rparr>)
   \<and> subscribers example_audit = [3] \<and> readyState example_state 3 = OPEN
   \<and> sent (state_of (logEvent 7 db_insert (DbInsertData ''jobs'' 4 (JBigInt 10) 12) 5 False
        example_state)) = sent example_state"
  by (simp add: example_state_eq example_audit_def example_entry_def eval_defs
      numeral_2_eq_2)

text \<open>
  C4, amended: when the insert fails for an event of an active session whose payload
  \<open>JSON.stringify\<close> accepts, \<open>logEvent\<close> still returns normally, the counter is
  incremented, the event is appended to the buffer and it is sent to every subscriber
  with an open socket; the registry and the messages sent are those of the call whose
  insert succeeds, and only the row is missing. The same holds of a call that was
  suspended at the insert while other calls ran: whatever the state \<open>t\<close> in which it
  resumes, with the insert failed it leaves the registry and the messages sent, and
  returns or throws, exactly as with the insert accepted, and it stores no row.
\<close>

theorem failed_insert_keeps_live_delivery:
  assumes "activeAudits s k = Some a" and "stringifiable data"
  shows "(\<exists>s'. logEvent k ty data now False s = Return () s'
     \<and> activeAudits s' k = Some (a\<lparr>sequenceCounter := sequenceCounter a + 1,
          entries := entries a @ [\<lparr>sequenceNum = sequenceCounter a + 1, timestamp = now,
                                   eventType = ty, eventData = data\<rparr>]\<rparr>)
     \<and> sent s' = sent s @ map (\<lambda>w. (w, Msg_entry k \<lparr>sequenceNum = sequenceCounter a + 1,
                 timestamp = now, eventType = ty, eventData = data\<rparr>))
             (filter (\<lambda>w. readyState s w = OPEN) (subscribers a))
     \<and> auditLogEntries s' = auditLogEntries s
     \<and> activeAudits s' = activeAudits (state_of (logEvent k ty data now True s))
     \<and> sent s' = sent (state_of (logEvent k ty data now True s)))
   \<and> activeAudits (state_of (logEvent_resume p False t))
        = activeAudits (state_of (logEvent_resume p True t))
   \<and> sent (state_of (logEvent_resume p False t)) = sent (state_of (logEvent_resume p True t))
   \<and> returns (logEvent_resume p False t) = returns (logEvent_resume p True t)
   \<and> auditLogEntries (state_of (logEvent_resume p False t)) = auditLogEntries t"
proof -
  have a: "(\<exists>s'. logEvent k ty data now False s = Return () s'
     \<and> activeAudits s' k = Some (a\<lparr>sequenceCounter := sequenceCounter a + 1,
          entries := entries a @ [\<lparr>sequenceNum = sequenceCounter a + 1, timestamp = now,
                                   eventType = ty, eventData = data\<rparr>]\<rparr>)
     \<and> sent s' = sent s @ map (\<lambda>w. (w, Msg_entry k \<lparr>sequenceNum = sequenceCounter a + 1,
                 timestamp = now, eventType = ty, eventData = data\<rparr>))
             (filter (\<lambda>w. readyState s w = OPEN) (subscribers a))
     \<and> auditLogEntries s' = auditLogEntries s
     \<and> activeAudits s' = activeAudits (state_of (logEvent k ty data now True s))
     \<and> sent s' = sent (state_of (logEvent k ty data now True s)))"
    using assms by (simp add: logEvent_active)
  have c: "activeAudits (state_of (logEvent_resume p False t))
        = activeAudits (state_of (logEvent_resume p True t))"
    "sent (state_of (logEvent_resume p False t)) = sent (state_of (logEvent_resume p True t))"
    "returns (logEvent_resume p False t) = returns (logEvent_resume p True t)"
    "auditLogEntries (state_of (logEvent_resume p False t)) = auditLogEntries t"
    by (simp_all add: logEvent_resume_def push_entry_def Let_def insert_auditLogEntries_def
        broadcastEntry_def broadcast_loop_eq split: option.splits)
  from a c show ?thesis by blast
qed

theorem failed_insert_keeps_live_delivery_witness:
  "activeAudits example_state 7 = Some example_audit \<and>
   (\<exists>s'. logEvent 7 db_insert (DbInsertData ''jobs'' 4 JNull 12) 5 False example_state
            = Return () s'
      \<and> sent s' = sent example_state @
           [(3, Msg_entry 7 \<lparr>sequenceNum = 2, timestamp = 5, eventType = db_insert,
                             eventData = DbInsertData ''jobs'' 4 JNull 12\<rparr>)]
      \<and> auditLogEntries s' = auditLogEntries example_state)"
  using failed_insert_keeps_live_delivery [of example_state 7 example_audit
      "DbInsertData ''jobs'' 4 JNull 12" db_insert 5
      "\<lparr>p_auditLogId = 7, p_object = Some 0, p_entry = example_entry\<rparr>" example_state]
  by (auto simp add: example_state_eq example_audit_def)

subsection \<open>Sequence numbers\<close>




subsection \<open>The full report\<close>

lemma count_list_filter: "count_list (map f xs) y = length (filter (\<lambda>x. f x = y) xs)"
  by (induction xs) auto

text \<open>
  C8. For a session whose row exists, and when the store answers, \<open>getFullAuditReport\<close>
  returns that row, all the stored events of the session sorted by sequence number, and
  a summary in which \<open>totalEvents\<close> is the number of events and each tally is the number
  of events of its type.
\<close>

theorem full_report:
  assumes "log \<in> set (auditLogs s)" and "log_id log = k"
  shows "\<exists>r. getFullAuditReport True True k s = Return (Some r) s
     \<and> report_log r \<in> set (auditLogs s) \<and> log_id (report_log r) = k
     \<and> (distinct (map log_id (auditLogs s)) \<longrightarrow> report_log r = log)
     \<and> mset (report_entries r)
         = filter_mset (\<lambda>e. rowAuditLogId e = k) (mset (auditLogEntries s))
     \<and> sorted (map sequenceNum (report_entries r))
     \<and> totalEvents (summary r) = length (report_entries r)
     \<and> dbQueries (summary r) = count_list (map eventType (report_entries r)) db_query
     \<and> dbInserts (summary r) = count_list (map eventType (report_entries r)) db_insert
     \<and> dbUpdates (summary r) = count_list (map eventType (report_entries r)) db_update
     \<and> llmCalls (summary r) = count_list (map eventType (report_entries r)) llm_call
     \<and> chunksProcessed (summary r)
         = count_list (map eventType (report_entries r)) chunk_processed
     \<and> errors (summary r) = count_list (map eventType (report_entries r)) error"
proof -
  from assms obtain l where f: "find (\<lambda>r. log_id r = k) (auditLogs s) = Some l"
    by (cases "find (\<lambda>r. log_id r = k) (auditLogs s)") (auto simp: find_None_iff)
  then have l: "l \<in> set (auditLogs s)" "log_id l = k"
    by (auto simp: find_Some_iff)
  have u: "l = log" if "distinct (map log_id (auditLogs s))"
    using that l assms by (auto simp: distinct_map inj_on_def)
  show ?thesis
    using f l u
    by (simp add: getFullAuditReport_def getAuditLog_def getAuditEntries_def count_list_filter)
qed

theorem full_report_witness:
  "\<lparr>log_id = 7, log_userId = 1, log_jobType = ''reconstruction'',
      log_jobId = None, log_startedAt = 1, log_completedAt = None,
      log_status = running, log_finalOutputPreview = None\<rparr> \<in> set (auditLogs report_state)
   \<and> (\<exists>r. getFullAuditReport True True 7 report_state = Return (Some r) report_state
        \<and> map eventType (report_entries r) = [job_started, db_query, llm_call, db_query, error]
        \<and> summary r = \<lparr>totalEvents = 5, dbQueries = 2, dbInserts = 0, dbUpdates = 0,
             llmCalls = 1, chunksProcessed = 0, errors = 1\<rparr>)"
proof -
  have rs: "auditLogs report_state = [\<lparr>log_id = 7, log_userId = 1, log_jobType = ''reconstruction'',
      log_jobId = None, log_startedAt = 1, log_completedAt = None,
      log_status = running, log_finalOutputPreview = None\<rparr>]"
    "map eventType (sort_key sequenceNum (filter (\<lambda>r. rowAuditLogId r = 7) (auditLogEntries report_state)))
       = [job_started, db_query, llm_call, db_query, error]"
    by (simp_all add: report_state_def example_state_eq example_audit_def example_entry_def
        eval_defs)
  from rs full_report [of "\<lparr>log_id = 7, log_userId = 1, log_jobType = ''reconstruction'',
      log_jobId = None, log_startedAt = 1, log_completedAt = None,
      log_status = running, log_finalOutputPreview = None\<rparr>" report_state 7]
  obtain r where r: "getFullAuditReport True True 7 report_state = Return (Some r) report_state"
    "totalEvents (summary r) = length (report_entries r)"
    "dbQueries (summary r) = count_list (map eventType (report_entries r)) db_query"
    "dbInserts (summary r) = count_list (map eventType (report_entries r)) db_insert"
    "dbUpdates (summary r) = count_list (map eventType (report_entries r)) db_update"
    "llmCalls (summary r) = count_list (map eventType (report_entries r)) llm_call"
    "chunksProcessed (summary r) = count_list (map eventType (report_entries r)) chunk_processed"
    "errors (summary r) = count_list (map eventType (report_entries r)) error"
    by auto
  from r(1) rs have e: "map eventType (report_entries r) = [job_started, db_query, llm_call, db_query, error]"
    by (auto simp add: getFullAuditReport_def getAuditLog_def getAuditEntries_def)
  then have "length (report_entries r) = 5"
    using length_map [of eventType "report_entries r"] by simp
  with r e have "summary r = \<lparr>totalEvents = 5, dbQueries = 2, dbInserts = 0, dbUpdates = 0,
             llmCalls = 1, chunksProcessed = 0, errors = 1\<rparr>"
    by (cases "summary r") simp
  with r(1) e rs show ?thesis by simp
qed

subsection \<open>Reading the events back\<close>







subsection \<open>Completing a session twice\<close>





lemma filter_completed_entries [simp]:
  "filter is_completed (map (\<lambda>w. (w, Msg_entry k e)) ws) = []"
  by (induction ws) simp_all

lemma filter_completed_completed [simp]:
  "filter is_completed (map (\<lambda>w. (w, Msg_completed k b n)) ws)
     = map (\<lambda>w. (w, Msg_completed k b n)) ws"
  by (induction ws) simp_all



subsection \<open>What a subscriber is sent\<close>




subsection \<open>Calls in pieces\<close>

lemma fstep_BeginLog:
  "fstep (BeginLog k ty data now) s =
     (case activeAudits s k of
        None \<Rightarrow> s\<lparr>suspended := suspended s @
            [AtInsert \<lparr>p_auditLogId = k, p_object = None,
               p_entry = \<lparr>sequenceNum = 1, timestamp = now, eventType = ty,
                           eventData = data\<rparr>\<rparr> None]\<rparr>
      | Some a \<Rightarrow> s\<lparr>activeAudits := (activeAudits s)(k \<mapsto>
              a\<lparr>sequenceCounter := Suc (sequenceCounter a)\<rparr>),
            suspended := suspended s @
            [AtInsert \<lparr>p_auditLogId = k, p_object = Some (objectId a),
               p_entry = \<lparr>sequenceNum = Suc (sequenceCounter a), timestamp = now,
                           eventType = ty, eventData = data\<rparr>\<rparr> None]\<rparr>)"
  by (simp add: logEvent_begin_active logEvent_begin_inactive suspend_def
      split: option.splits)

lemma fstep_BeginComplete:
  "fstep (BeginComplete k success preview aw tw now) s =
     (case activeAudits s k of
        None \<Rightarrow> s\<lparr>suspended := suspended s @
            [AtInsert \<lparr>p_auditLogId = k, p_object = None,
               p_entry = \<lparr>sequenceNum = 1, timestamp = now, eventType = job_completed,
                           eventData = completion_event k success aw tw s\<rparr>\<rparr>
               (Some (success, preview))]\<rparr>
      | Some a \<Rightarrow> s\<lparr>activeAudits := (activeAudits s)(k \<mapsto>
              a\<lparr>sequenceCounter := Suc (sequenceCounter a)\<rparr>),
            suspended := suspended s @
            [AtInsert \<lparr>p_auditLogId = k, p_object = Some (objectId a),
               p_entry = \<lparr>sequenceNum = Suc (sequenceCounter a), timestamp = now,
                           eventType = job_completed,
                           eventData = completion_event k success aw tw s\<rparr>\<rparr>
               (Some (success, preview))]\<rparr>)"
  by (simp add: logEvent_begin_active logEvent_begin_inactive suspend_def
      split: option.splits)

lemma fstep_BeginStart:
  "fstep (BeginStart uid jt jid now now' newId dbOk) s =
     (if dbOk then
        s\<lparr>activeAudits := (activeAudits s)(newId \<mapsto>
            \<lparr>auditLogId = newId, userId = uid, jobType = jt, jobId = jid,
             sequenceCounter = 1, subscribers = [], entries = [],
             objectId = objectCount s\<rparr>),
          auditLogs := auditLogs s @
            [\<lparr>log_id = newId, log_userId = uid, log_jobType = jt, log_jobId = jid,
              log_startedAt = now, log_completedAt = None, log_status = running,
              log_finalOutputPreview = None\<rparr>],
          objectCount := Suc (objectCount s),
          suspended := suspended s @
            [AtInsert \<lparr>p_auditLogId = newId, p_object = Some (objectCount s),
               p_entry = \<lparr>sequenceNum = 1, timestamp = now', eventType = job_started,
                           eventData = JobStartedData jt None None\<rparr>\<rparr> None]\<rparr>
      else s)"
  by (simp add: startAudit_open_def insert_auditLogs_def Let_def logEvent_begin_active
      suspend_def)

lemma logEvent_resume_proj [simp]:
  "readyState (state_of (logEvent_resume p dbOk s)) = readyState s"
  "clientConnections (state_of (logEvent_resume p dbOk s)) = clientConnections s"
  "auditLogs (state_of (logEvent_resume p dbOk s)) = auditLogs s"
  "suspended (state_of (logEvent_resume p dbOk s)) = suspended s"
  "objectCount (state_of (logEvent_resume p dbOk s)) = objectCount s"
  by (simp_all add: logEvent_resume_def push_entry_def Let_def insert_auditLogEntries_def
      broadcastEntry_def broadcast_loop_eq split: option.splits)

lemma logEvent_resume_audits:
  "activeAudits (state_of (logEvent_resume p dbOk s)) =
     (case activeAudits s (p_auditLogId p) of
        None \<Rightarrow> activeAudits s
      | Some a \<Rightarrow>
          if p_object p = Some (objectId a)
          then (activeAudits s)(p_auditLogId p \<mapsto> a\<lparr>entries := entries a @ [p_entry p]\<rparr>)
          else activeAudits s)"
  by (simp add: logEvent_resume_def push_entry_def Let_def insert_auditLogEntries_def
      broadcastEntry_def broadcast_loop_eq split: option.splits)


lemma resume_AtInsert_proj:
  "activeAudits (resume_call (AtInsert p c) dbOk now s)
     = activeAudits (state_of (logEvent_resume p dbOk s))"
  "sent (resume_call (AtInsert p c) dbOk now s) = sent (state_of (logEvent_resume p dbOk s))"
  "readyState (resume_call (AtInsert p c) dbOk now s) = readyState s"
  "objectCount (resume_call (AtInsert p c) dbOk now s) = objectCount s"
  "suspended (resume_call (AtInsert p c) dbOk now s) =
     suspended s @
     (case c of
        None \<Rightarrow> []
      | Some (success, preview) \<Rightarrow>
          if returns (logEvent_resume p dbOk s)
          then [AtUpdate (p_auditLogId p) success preview now] else [])"
  by (cases "logEvent_resume p dbOk s";
      use logEvent_resume_proj [of p dbOk s] in
        \<open>simp add: suspend_def split: option.splits prod.splits\<close>)+

text \<open>The handlers and the resumptions, seen from the registry.\<close>

lemma state_of_alt: "(case r of Return x s' \<Rightarrow> s' | Throw e s' \<Rightarrow> s') = state_of r"
  by (cases r) simp_all

lemma completeAudit_finish_cases:
  "\<exists>s3. activeAudits s3 = activeAudits s \<and> readyState s3 = readyState s
     \<and> suspended s3 = suspended s \<and> objectCount s3 = objectCount s
     \<and> auditLogEntries s3 = auditLogEntries s
     \<and> (\<forall>ws j. received_entries ws j s3 = received_entries ws j s)
     \<and> ((\<exists>e. completeAudit_finish k success preview at dbOk s = Throw e s3)
        \<or> completeAudit_finish k success preview at dbOk s
             = Return () (s3\<lparr>activeAudits := (activeAudits s3)(k := None)\<rparr>))"
proof -
  let ?s2 = "state_of (update_auditLogs dbOk k at (if success then completed else failed)
                (map_option (take 500) preview) s)"
  have e: "completeAudit_finish k success preview at dbOk s =
     (case (case activeAudits ?s2 k of
                 None \<Rightarrow> Return () ?s2
               | Some audit \<Rightarrow>
                   send_all (subscribers audit)
                     (Msg_completed k success (length (entries audit))) ?s2) of
           Throw e s' \<Rightarrow> Throw e s'
         | Return _ s3 \<Rightarrow> Return () (s3\<lparr>activeAudits := (activeAudits s3)(k := None)\<rparr>))"
    by (simp add: completeAudit_finish_def Let_def state_of_alt)
  have p2: "activeAudits ?s2 = activeAudits s" "readyState ?s2 = readyState s"
    "suspended ?s2 = suspended s" "objectCount ?s2 = objectCount s"
    "auditLogEntries ?s2 = auditLogEntries s"
    "\<forall>ws j. received_entries ws j ?s2 = received_entries ws j s"
    by (simp_all add: received_entries_def)
  show ?thesis
  proof (cases "activeAudits ?s2 k")
    case None
    with p2 show ?thesis
      unfolding e by (intro exI [of _ ?s2]) simp
  next
    case (Some a)
    let ?r = "send_all (subscribers a) (Msg_completed k success (length (entries a))) ?s2"
    have p: "activeAudits (state_of ?r) = activeAudits s" "readyState (state_of ?r) = readyState s"
      "suspended (state_of ?r) = suspended s" "objectCount (state_of ?r) = objectCount s"
      "auditLogEntries (state_of ?r) = auditLogEntries s"
      "\<forall>ws j. received_entries ws j (state_of ?r) = received_entries ws j s"
      using p2 by simp_all
    show ?thesis
    proof (cases ?r)
      case (Return u s3)
      with p have "activeAudits s3 = activeAudits s" "readyState s3 = readyState s"
        "suspended s3 = suspended s" "objectCount s3 = objectCount s"
        "auditLogEntries s3 = auditLogEntries s"
        "\<forall>ws j. received_entries ws j s3 = received_entries ws j s" by simp_all
      moreover have "completeAudit_finish k success preview at dbOk s
             = Return () (s3\<lparr>activeAudits := (activeAudits s3)(k := None)\<rparr>)"
        unfolding e using Some Return by simp
      ultimately show ?thesis by blast
    next
      case (Throw x s3)
      with p have "activeAudits s3 = activeAudits s" "readyState s3 = readyState s"
        "suspended s3 = suspended s" "objectCount s3 = objectCount s"
        "auditLogEntries s3 = auditLogEntries s"
        "\<forall>ws j. received_entries ws j s3 = received_entries ws j s" by simp_all
      moreover have "completeAudit_finish k success preview at dbOk s = Throw x s3"
        unfolding e using Some Throw by simp
      ultimately show ?thesis by blast
    qed
  qed
qed

lemma completeAudit_finish_proj [simp]:
  "readyState (state_of (completeAudit_finish k success preview at dbOk s)) = readyState s"
  "suspended (state_of (completeAudit_finish k success preview at dbOk s)) = suspended s"
  "objectCount (state_of (completeAudit_finish k success preview at dbOk s)) = objectCount s"
  "auditLogEntries (state_of (completeAudit_finish k success preview at dbOk s))
     = auditLogEntries s"
  "received_entries ws j (state_of (completeAudit_finish k success preview at dbOk s))
     = received_entries ws j s"
  using completeAudit_finish_cases [of s k success preview at dbOk] by auto

lemma completeAudit_finish_audits:
  "activeAudits (state_of (completeAudit_finish k success preview at dbOk s)) k' = None
   \<or> activeAudits (state_of (completeAudit_finish k success preview at dbOk s)) k'
        = activeAudits s k'"
  "k' \<noteq> k \<Longrightarrow> activeAudits (state_of (completeAudit_finish k success preview at dbOk s)) k'
        = activeAudits s k'"
  using completeAudit_finish_cases [of s k success preview at dbOk] by auto


text \<open>A whole call is the composition of its pieces, with nothing in between.\<close>

lemma logEvent_begin_suspended [simp]:
  "suspended (snd (logEvent_begin k ty data now s)) = suspended s"
  "objectCount (snd (logEvent_begin k ty data now s)) = objectCount s"
  by (simp_all add: logEvent_begin_def Let_def)

lemma unsuspend_last [simp]:
  "(suspend c s)\<lparr>suspended := take (length (suspended s)) (suspended (suspend c s))
       @ drop (Suc (length (suspended s))) (suspended (suspend c s))\<rparr> = s"
  by (simp add: suspend_def)

lemma suspend_proj [simp]:
  "suspended (suspend c s) = suspended s @ [c]"
  "activeAudits (suspend c s) = activeAudits s"
  "objectCount (suspend c s) = objectCount s"
  "readyState (suspend c s) = readyState s"
  "sent (suspend c s) = sent s"
  "auditLogEntries (suspend c s) = auditLogEntries s"
  "auditLogs (suspend c s) = auditLogs s"
  "clientConnections (suspend c s) = clientConnections s"
  by (simp_all add: suspend_def)

lemma resume_last:
  "fstep (Resume (length (suspended s)) dbOk n) (suspend c s) = resume_call c dbOk n s"
  by (simp add: suspend_def)

lemma Call_LogEvent:
  "fstep (Call (LogEvent k ty data now dbOk)) s
     = fstep (Resume (length (suspended s)) dbOk n) (fstep (BeginLog k ty data now) s)"
proof -
  obtain p s1 where b: "logEvent_begin k ty data now s = (p, s1)"
    by (cases "logEvent_begin k ty data now s")
  then have "suspended s1 = suspended s"
    using logEvent_begin_suspended(1) [of k ty data now s] by simp
  then have "fstep (Resume (length (suspended s)) dbOk n) (suspend (AtInsert p None) s1)
      = resume_call (AtInsert p None) dbOk n s1"
    using resume_last [of s1 dbOk n "AtInsert p None"] by simp
  with b show ?thesis
    by (cases "logEvent_resume p dbOk s1")
       (simp_all add: logEvent_def del: fstep.simps(5))
qed

lemma Call_StartAudit:
  "fstep (Call (StartAudit uid jt jid now now' newId dbOk dbOk')) s
     = fstep (Resume (length (suspended s)) dbOk' n)
         (fstep (BeginStart uid jt jid now now' newId dbOk) s)"
proof (cases dbOk)
  case False
  then show ?thesis
    by (simp add: startAudit_def startAudit_open_def insert_auditLogs_def)
next
  case True
  obtain s2 where o: "startAudit_open uid jt jid now newId dbOk s = Return newId s2"
    and s2: "suspended s2 = suspended s"
    using True by (simp add: startAudit_open_def insert_auditLogs_def Let_def)
  obtain p s3 where b: "logEvent_begin newId job_started (JobStartedData jt None None) now' s2
      = (p, s3)"
    by (cases "logEvent_begin newId job_started (JobStartedData jt None None) now' s2")
  then have "suspended s3 = suspended s"
    using logEvent_begin_suspended(1) [of newId job_started "JobStartedData jt None None" now' s2]
      s2 by simp
  then have r: "fstep (Resume (length (suspended s)) dbOk' n) (suspend (AtInsert p None) s3)
      = resume_call (AtInsert p None) dbOk' n s3"
    using resume_last [of s3 dbOk' n "AtInsert p None"] by simp
  have "stringifiable (eventData (p_entry p))"
    using b by (auto simp add: logEvent_begin_def Let_def)
  show ?thesis
    using o b r
    by (cases "logEvent_resume p dbOk' s3")
       (simp_all add: startAudit_def logEvent_def del: fstep.simps(5))
qed


lemma logEvent_resume_returns:
  "stringifiable (eventData (p_entry p)) \<Longrightarrow> \<exists>s'. logEvent_resume p dbOk s = Return () s'"
  by (simp add: logEvent_resume_def Let_def broadcastEntry_def broadcast_loop_eq
      split: option.splits)

lemma logEvent_begin_pending:
  "p_auditLogId (fst (logEvent_begin k ty data now s)) = k"
  "eventData (p_entry (fst (logEvent_begin k ty data now s))) = data"
  "eventType (p_entry (fst (logEvent_begin k ty data now s))) = ty"
  "timestamp (p_entry (fst (logEvent_begin k ty data now s))) = now"
  by (simp_all add: logEvent_begin_def Let_def)

lemma Call_CompleteAudit:
  "fstep (Call (CompleteAudit k success preview aw tw now now' dbOk dbOk')) s
     = fstep (Resume (length (suspended s)) dbOk' n)
         (fstep (Resume (length (suspended s)) dbOk now')
            (fstep (BeginComplete k success preview aw tw now) s))"
proof -
  obtain p s1 where b: "logEvent_begin k job_completed (completion_event k success aw tw s) now s
      = (p, s1)"
    by (cases "logEvent_begin k job_completed (completion_event k success aw tw s) now s")
  have s1: "suspended s1 = suspended s"
    using b logEvent_begin_suspended(1) [of k job_completed
        "completion_event k success aw tw s" now s] by simp
  have p: "p_auditLogId p = k" "stringifiable (eventData (p_entry p))"
    using b logEvent_begin_pending(1,2) [of k job_completed
        "completion_event k success aw tw s" now s]
    by (simp_all add: completion_event_def)
  obtain s2 where r: "logEvent_resume p dbOk s1 = Return () s2"
    using logEvent_resume_returns [OF p(2)] by blast
  then have s2: "suspended s2 = suspended s"
    using logEvent_resume_proj(4) [of p dbOk s1] s1 by simp
  have "fstep (Resume (length (suspended s)) dbOk now')
            (fstep (BeginComplete k success preview aw tw now) s)
      = suspend (AtUpdate k success preview now') s2"
    using b s1 r p(1) resume_last [of s1 dbOk now' "AtInsert p (Some (success, preview))"]
    by (simp del: fstep.simps(5))
  moreover have "fstep (Resume (length (suspended s)) dbOk' n)
        (suspend (AtUpdate k success preview now') s2)
      = state_of (completeAudit_finish k success preview now' dbOk' s2)"
    using s2 resume_last [of s2 dbOk' n "AtUpdate k success preview now'"]
    by (simp del: fstep.simps(5))
  ultimately show ?thesis
    using b r by (simp add: completeAudit_def logEvent_def del: fstep.simps(5))
qed


lemma resume_AtUpdate:
  "resume_call (AtUpdate k success preview at) dbOk now s
     = state_of (completeAudit_finish k success preview at dbOk s)"
  by simp

declare resume_call.simps [simp del]

subsection \<open>Invariants of histories with suspended calls\<close>

lemma fresh_resume_call:
  assumes "fresh s"
  shows "fresh (resume_call c dbOk now s)"
proof (cases c)
  case (AtInsert p c')
  show ?thesis
    using assms unfolding fresh_def AtInsert
    by (auto simp add: resume_AtInsert_proj logEvent_resume_audits
        split: option.splits if_splits)
next
  case (AtUpdate k success preview at)
  show ?thesis
    using assms completeAudit_finish_audits(1) [of k success preview at dbOk s]
    unfolding fresh_def AtUpdate
    by (simp add: resume_AtUpdate) (metis option.distinct(1))
qed

lemma fresh_fstep_Resume:
  assumes "fresh s"
  shows "fresh (fstep (Resume i dbOk now) s)"
proof (cases "i < length (suspended s)")
  case False
  with assms show ?thesis by simp
next
  case True
  let ?s' = "s\<lparr>suspended := take i (suspended s) @ drop (Suc i) (suspended s)\<rparr>"
  have sub: "set (suspended ?s') \<subseteq> set (suspended s)"
    by (auto dest: in_set_takeD in_set_dropD)
  with assms have f': "fresh ?s'"
    unfolding fresh_def by auto
  with True show ?thesis by (simp add: fresh_resume_call)
qed

lemma fresh_fstep_Begin:
  assumes "fresh s"
  shows "fresh (fstep (BeginLog k ty data now) s)"
    and "fresh (fstep (BeginComplete k success preview aw tw now) s)"
    and "fresh (fstep (BeginStart uid jt jid now now' newId dbOk) s)"
  using assms unfolding fresh_def fstep_BeginLog fstep_BeginComplete fstep_BeginStart
  by (auto split: option.splits if_splits simp add: less_Suc_eq)

lemma fresh_handlers:
  assumes "fresh s"
  shows "fresh (on_connection w s)" and "fresh (on_message w m ok s)"
    and "fresh (on_close w s)" and "fresh (s\<lparr>readyState := r\<rparr>)"
proof -
  show "fresh (on_connection w s)" "fresh (s\<lparr>readyState := r\<rparr>)"
    using assms by (simp_all add: fresh_def on_connection_def)
  show "fresh (on_message w m ok s)"
    using assms unfolding fresh_def
    by (cases m)
       (auto simp add: on_message_audits modify_audit_audits split: option.splits if_splits)
  show "fresh (on_close w s)"
    using assms unfolding fresh_def
    by (auto simp add: on_close_audits split: option.splits if_splits)
qed

lemma fresh_fstep:
  assumes "fresh s"
  shows "fresh (fstep e s)"
proof (cases e)
  case (Call act)
  show ?thesis
  proof (cases act)
    case (StartAudit uid jt jid now now' newId dbOk dbOk')
    show ?thesis
      unfolding Call StartAudit Call_StartAudit [of _ _ _ _ _ _ _ _ _ 0]
      by (intro fresh_fstep_Resume fresh_fstep_Begin assms)
  next
    case (LogEvent k ty data now dbOk)
    show ?thesis
      unfolding Call LogEvent Call_LogEvent [of _ _ _ _ _ _ 0]
      by (intro fresh_fstep_Resume fresh_fstep_Begin assms)
  next
    case (CompleteAudit k success preview aw tw now now' dbOk dbOk')
    show ?thesis
      unfolding Call CompleteAudit Call_CompleteAudit [of _ _ _ _ _ _ _ _ _ _ 0]
      by (intro fresh_fstep_Resume fresh_fstep_Begin assms)
  next
    case (Connection w)
    with Call assms show ?thesis by (simp add: fresh_handlers)
  next
    case (Message w m ok)
    with Call assms show ?thesis by (simp add: fresh_handlers)
  next
    case (Close w)
    with Call assms fresh_handlers(3) [OF fresh_handlers(4) [OF assms]] show ?thesis by simp
  next
    case (Transport w r)
    with Call assms show ?thesis by (simp add: fresh_handlers)
  qed
next
  case (BeginLog k ty data now)
  with assms show ?thesis by (simp only: fresh_fstep_Begin)
next
  case (BeginStart uid jt jid now now' newId dbOk)
  with assms show ?thesis by (simp only: fresh_fstep_Begin)
next
  case (BeginComplete k success preview aw tw now)
  with assms show ?thesis by (simp only: fresh_fstep_Begin)
next
  case (Resume i dbOk now)
  with assms show ?thesis by (simp only: fresh_fstep_Resume)
qed


lemma length_filter_remove:
  "i < length xs \<Longrightarrow>
   length (filter P (take i xs @ drop (Suc i) xs)) + (if P (xs ! i) then 1 else 0)
     = length (filter P xs)"
proof -
  assume "i < length xs"
  then have "xs = take i xs @ xs ! i # drop (Suc i) xs"
    by (rule id_take_nth_drop)
  then have "filter P xs = filter P (take i xs @ xs ! i # drop (Suc i) xs)"
    by simp
  then show ?thesis by simp
qed

lemma counted_alt:
  "counted s \<longleftrightarrow>
     (\<forall>k a. activeAudits s k = Some a \<longrightarrow>
        sequenceCounter a
          = length (entries a) + length (filter (holds k (objectId a)) (suspended s)))"
  by (auto simp add: counted_def in_flight_def)

lemma filter_holds_extra [simp]:
  "filter (holds k ob)
     (case c of None \<Rightarrow> []
      | Some (success, preview) \<Rightarrow> if b then [AtUpdate k' success preview now] else []) = []"
  by (simp split: option.splits prod.splits)

lemma counted_fstep_Resume:
  assumes "counted s"
  shows "counted (fstep (Resume i dbOk now) s)"
proof (cases "i < length (suspended s)")
  case False
  with assms show ?thesis by simp
next
  case True
  let ?xs = "suspended s"
  let ?rest = "take i ?xs @ drop (Suc i) ?xs"
  let ?s' = "s\<lparr>suspended := ?rest\<rparr>"
  have len: "length (filter P ?rest) + (if P (?xs ! i) then 1 else 0) = length (filter P ?xs)"
    for P
    using True by (rule length_filter_remove)
  show ?thesis
  proof (cases "?xs ! i")
    case (AtInsert p c)
    have "counted (resume_call (AtInsert p c) dbOk now ?s')"
      unfolding counted_alt
    proof (intro allI impI)
      fix k b
      assume b: "activeAudits (resume_call (AtInsert p c) dbOk now ?s') k = Some b"
      have sus: "filter (holds k (objectId b))
            (suspended (resume_call (AtInsert p c) dbOk now ?s'))
          = filter (holds k (objectId b)) ?rest"
        by (simp add: resume_AtInsert_proj)
      show "sequenceCounter b = length (entries b)
          + length (filter (holds k (objectId b))
              (suspended (resume_call (AtInsert p c) dbOk now ?s')))"
        unfolding sus
        using b assms len [of "holds k (objectId b)"] AtInsert
        by (auto simp add: counted_alt resume_AtInsert_proj logEvent_resume_audits
            split: option.splits if_splits)
    qed
    with True AtInsert show ?thesis by simp
  next
    case (AtUpdate k' success preview at)
    have "counted (resume_call (AtUpdate k' success preview at) dbOk now ?s')"
      unfolding counted_alt
    proof (intro allI impI)
      fix k b
      assume b: "activeAudits (resume_call (AtUpdate k' success preview at) dbOk now ?s') k
          = Some b"
      then have "activeAudits s k = Some b"
        using completeAudit_finish_audits(1) [of k' success preview at dbOk ?s' k]
        by (simp add: resume_AtUpdate)
      then show "sequenceCounter b = length (entries b)
          + length (filter (holds k (objectId b))
              (suspended (resume_call (AtUpdate k' success preview at) dbOk now ?s')))"
        using assms len [of "holds k (objectId b)"] AtUpdate
        by (simp add: counted_alt resume_AtUpdate)
    qed
    with True AtUpdate show ?thesis by simp
  qed
qed

lemma counted_fstep_Begin:
  assumes "counted s" and "fresh s"
  shows "counted (fstep (BeginLog k ty data now) s)"
    and "counted (fstep (BeginComplete k success preview aw tw now) s)"
    and "counted (fstep (BeginStart uid jt jid now now' newId dbOk) s)"
proof -
  show "counted (fstep (BeginLog k ty data now) s)"
    "counted (fstep (BeginComplete k success preview aw tw now) s)"
    using assms(1) unfolding counted_alt fstep_BeginLog fstep_BeginComplete
    by (auto split: option.splits if_splits)
  have "filter (holds newId (objectCount s)) (suspended s) = []"
    using assms(2) unfolding fresh_def filter_empty_conv
    by (meson less_irrefl)
  then show "counted (fstep (BeginStart uid jt jid now now' newId dbOk) s)"
    using assms(1) unfolding counted_alt fstep_BeginStart
    by (auto split: option.splits if_splits)
qed

lemma counted_handlers:
  assumes "counted s"
  shows "counted (on_connection w s)" and "counted (on_message w m ok s)"
    and "counted (on_close w s)" and "counted (s\<lparr>readyState := r\<rparr>)"
proof -
  show "counted (on_connection w s)" "counted (s\<lparr>readyState := r\<rparr>)"
    using assms by (simp_all add: counted_alt on_connection_def)
  show "counted (on_message w m ok s)"
    using assms unfolding counted_alt
    by (cases m)
       (auto simp add: on_message_audits modify_audit_audits split: option.splits if_splits)
  show "counted (on_close w s)"
    using assms unfolding counted_alt
    by (auto simp add: on_close_audits split: option.splits if_splits)
qed

lemma counted_fstep:
  assumes "counted s" and "fresh s"
  shows "counted (fstep e s)"
proof (cases e)
  case (Call act)
  show ?thesis
  proof (cases act)
    case (StartAudit uid jt jid now now' newId dbOk dbOk')
    show ?thesis
      unfolding Call StartAudit Call_StartAudit [of _ _ _ _ _ _ _ _ _ 0]
      by (intro counted_fstep_Resume counted_fstep_Begin assms)
  next
    case (LogEvent k ty data now dbOk)
    show ?thesis
      unfolding Call LogEvent Call_LogEvent [of _ _ _ _ _ _ 0]
      by (intro counted_fstep_Resume counted_fstep_Begin assms)
  next
    case (CompleteAudit k success preview aw tw now now' dbOk dbOk')
    show ?thesis
      unfolding Call CompleteAudit Call_CompleteAudit [of _ _ _ _ _ _ _ _ _ _ 0]
      by (intro counted_fstep_Resume counted_fstep_Begin assms)
  next
    case (Connection w)
    with Call assms show ?thesis by (simp add: counted_handlers)
  next
    case (Message w m ok)
    with Call assms show ?thesis by (simp add: counted_handlers)
  next
    case (Close w)
    with Call assms counted_handlers(3) [OF counted_handlers(4) [OF assms(1)]]
    show ?thesis by simp
  next
    case (Transport w r)
    with Call assms show ?thesis by (simp add: counted_handlers)
  qed
next
  case (BeginLog k ty data now)
  with assms show ?thesis by (simp only: counted_fstep_Begin)
next
  case (BeginStart uid jt jid now now' newId dbOk)
  with assms show ?thesis by (simp only: counted_fstep_Begin)
next
  case (BeginComplete k success preview aw tw now)
  with assms show ?thesis by (simp only: counted_fstep_Begin)
next
  case (Resume i dbOk now)
  with assms show ?thesis by (simp only: counted_fstep_Resume)
qed


lemma ordered_alt:
  "ordered k s \<longleftrightarrow>
     (\<forall>a. activeAudits s k = Some a \<longrightarrow>
        (\<forall>i < length (entries a). sequenceNum (entries a ! i) = i + 1) \<and>
        length (filter (holds k (objectId a)) (suspended s)) \<le> 1 \<and>
        (\<forall>c \<in> set (filter (holds k (objectId a)) (suspended s)).
           number_of c = sequenceCounter a))"
  by (auto simp add: ordered_def in_flight_def)

lemma set_filter_remove:
  "set (filter P (take i xs @ drop (Suc i) xs)) \<subseteq> set (filter P xs)"
  by (auto dest: in_set_takeD in_set_dropD)

lemma ordered_push:
  assumes "\<forall>i < length es. sequenceNum (es ! i) = i + 1" and "sequenceNum e = length es + 1"
  shows "\<forall>i < length (es @ [e]). sequenceNum ((es @ [e]) ! i) = i + 1"
  using assms by (auto simp add: nth_append less_Suc_eq)

lemma ordered_fstep_Resume:
  assumes "ordered k s" and "counted s"
  shows "ordered k (fstep (Resume i dbOk now) s)"
proof (cases "i < length (suspended s)")
  case False
  with assms show ?thesis by simp
next
  case True
  let ?xs = "suspended s"
  let ?rest = "take i ?xs @ drop (Suc i) ?xs"
  let ?s' = "s\<lparr>suspended := ?rest\<rparr>"
  have len: "length (filter P ?rest) + (if P (?xs ! i) then 1 else 0) = length (filter P ?xs)"
    for P
    using True by (rule length_filter_remove)
  have sub: "set (filter P ?rest) \<subseteq> set (filter P ?xs)" for P
    by (rule set_filter_remove)
  show ?thesis
  proof (cases "?xs ! i")
    case (AtInsert p c)
    let ?t = "resume_call (AtInsert p c) dbOk now ?s'"
    have "ordered k ?t"
      unfolding ordered_alt
    proof (intro allI impI)
      fix b
      assume b: "activeAudits ?t k = Some b"
      have sus: "filter (holds k (objectId b)) (suspended ?t)
          = filter (holds k (objectId b)) ?rest"
        by (simp add: resume_AtInsert_proj)
      have "\<exists>a. activeAudits s k = Some a \<and> objectId b = objectId a
          \<and> sequenceCounter b = sequenceCounter a
          \<and> (b = a \<and> \<not> holds k (objectId a) (?xs ! i)
            \<or> b = a\<lparr>entries := entries a @ [p_entry p]\<rparr> \<and> holds k (objectId a) (?xs ! i))"
        using b AtInsert
        by (cases "p_auditLogId p = k")
           (auto simp add: resume_AtInsert_proj logEvent_resume_audits
              split: option.splits if_splits)
      then obtain a where a: "activeAudits s k = Some a" "objectId b = objectId a"
        "sequenceCounter b = sequenceCounter a"
        and ba: "b = a \<and> \<not> holds k (objectId a) (?xs ! i)
          \<or> b = a\<lparr>entries := entries a @ [p_entry p]\<rparr> \<and> holds k (objectId a) (?xs ! i)"
        by blast
      let ?P = "holds k (objectId a)"
      from assms(1) a(1) have o: "\<forall>i < length (entries a). sequenceNum (entries a ! i) = i + 1"
        "length (filter ?P ?xs) \<le> 1"
        "\<forall>c \<in> set (filter ?P ?xs). number_of c = sequenceCounter a"
        by (simp_all add: ordered_alt)
      from assms(2) a(1) have cnt: "sequenceCounter a
          = length (entries a) + length (filter ?P ?xs)"
        by (simp add: counted_alt)
      from ba show "(\<forall>i < length (entries b). sequenceNum (entries b ! i) = i + 1) \<and>
        length (filter (holds k (objectId b)) (suspended ?t)) \<le> 1 \<and>
        (\<forall>c \<in> set (filter (holds k (objectId b)) (suspended ?t)).
           number_of c = sequenceCounter b)"
      proof
        assume h: "b = a \<and> \<not> holds k (objectId a) (?xs ! i)"
        with len [of ?P] have "length (filter ?P ?rest) = length (filter ?P ?xs)" by simp
        with h o sub [of ?P] a show ?thesis
          unfolding sus by auto
      next
        assume h: "b = a\<lparr>entries := entries a @ [p_entry p]\<rparr> \<and> holds k (objectId a) (?xs ! i)"
        then have "?P (?xs ! i)" by simp
        with len [of ?P] have "length (filter ?P ?rest) + 1 = length (filter ?P ?xs)"
          by (simp only: if_True)
        with o(2) have "length (filter ?P ?xs) = 1 \<and> length (filter ?P ?rest) = 0"
          by linarith
        then have l: "length (filter ?P ?xs) = 1" "filter ?P ?rest = []"
          by (simp_all only: length_0_conv)
        from h True have "?xs ! i \<in> set (filter ?P ?xs)" by simp
        with o(3) AtInsert have "sequenceNum (p_entry p) = sequenceCounter a" by auto
        with cnt l have "sequenceNum (p_entry p) = length (entries a) + 1" by simp
        with o(1) have "\<forall>i < length (entries a @ [p_entry p]).
            sequenceNum ((entries a @ [p_entry p]) ! i) = i + 1"
          by (rule ordered_push)
        with h l a show ?thesis
          unfolding sus by simp
      qed
    qed
    with True AtInsert show ?thesis by simp
  next
    case (AtUpdate k' success preview at)
    let ?t = "resume_call (AtUpdate k' success preview at) dbOk now ?s'"
    have "ordered k ?t"
      unfolding ordered_alt
    proof (intro allI impI)
      fix b
      assume b: "activeAudits ?t k = Some b"
      then have a: "activeAudits s k = Some b"
        using completeAudit_finish_audits(1) [of k' success preview at dbOk ?s' k]
        by (simp add: resume_AtUpdate)
      let ?P = "holds k (objectId b)"
      from assms(1) a have o: "\<forall>i < length (entries b). sequenceNum (entries b ! i) = i + 1"
        "length (filter ?P ?xs) \<le> 1"
        "\<forall>c \<in> set (filter ?P ?xs). number_of c = sequenceCounter b"
        by (simp_all add: ordered_alt)
      have "length (filter ?P ?rest) = length (filter ?P ?xs)"
        using len [of ?P] AtUpdate by simp
      with o sub [of ?P]
      show "(\<forall>i < length (entries b). sequenceNum (entries b ! i) = i + 1) \<and>
        length (filter ?P (suspended ?t)) \<le> 1 \<and>
        (\<forall>c \<in> set (filter ?P (suspended ?t)). number_of c = sequenceCounter b)"
        by (auto simp add: resume_AtUpdate)
    qed
    with True AtUpdate show ?thesis by simp
  qed
qed


lemma ordered_fstep_BeginLog:
  assumes "ordered k s" and "k' \<noteq> k \<or> in_flight k s = []"
  shows "ordered k (fstep (BeginLog k' ty data now) s)"
    and "ordered k (fstep (BeginComplete k' success preview aw tw now) s)"
  using assms unfolding ordered_alt fstep_BeginLog fstep_BeginComplete
  by (auto simp add: in_flight_def filter_empty_conv split: option.splits if_splits)

lemma ordered_fstep_BeginStart:
  assumes "ordered k s" and "fresh s"
  shows "ordered k (fstep (BeginStart uid jt jid now now' newId dbOk) s)"
proof -
  have n: "\<forall>c \<in> set (suspended s). \<not> holds newId (objectCount s) c"
    using assms(2) unfolding fresh_def
    by (meson less_irrefl)
  then have "filter (holds newId (objectCount s)) (suspended s) = []"
    by (simp add: filter_empty_conv)
  with n show ?thesis
    using assms(1) unfolding ordered_alt fstep_BeginStart
    by (auto split: option.splits if_splits)
qed

lemma ordered_handlers:
  assumes "ordered k s"
  shows "ordered k (on_connection w s)" and "ordered k (on_message w m ok s)"
    and "ordered k (on_close w s)" and "ordered k (s\<lparr>readyState := r\<rparr>)"
proof -
  show "ordered k (on_connection w s)" "ordered k (s\<lparr>readyState := r\<rparr>)"
    using assms by (simp_all add: ordered_alt on_connection_def)
  show "ordered k (on_message w m ok s)"
    using assms unfolding ordered_alt
    by (cases m)
       (auto simp add: on_message_audits modify_audit_audits split: option.splits if_splits)
  show "ordered k (on_close w s)"
    using assms unfolding ordered_alt
    by (auto simp add: on_close_audits split: option.splits if_splits)
qed

lemma ordered_fstep:
  assumes "ordered k s" and "counted s" and "fresh s"
    and "\<not> begins_log k e \<or> in_flight k s = []"
  shows "ordered k (fstep e s)"
proof (cases e)
  case (Call act)
  show ?thesis
  proof (cases act)
    case (StartAudit uid jt jid now now' newId dbOk dbOk')
    show ?thesis
      unfolding Call StartAudit Call_StartAudit [of _ _ _ _ _ _ _ _ _ 0]
      by (intro ordered_fstep_Resume ordered_fstep_BeginStart counted_fstep_Begin assms)
  next
    case (LogEvent k' ty data now dbOk)
    with Call assms(4) have "k' \<noteq> k \<or> in_flight k s = []" by auto
    then show ?thesis
      unfolding Call LogEvent Call_LogEvent [of _ _ _ _ _ _ 0]
      by (intro ordered_fstep_Resume ordered_fstep_BeginLog counted_fstep_Begin assms)
  next
    case (CompleteAudit k' success preview aw tw now now' dbOk dbOk')
    with Call assms(4) have "k' \<noteq> k \<or> in_flight k s = []" by auto
    then show ?thesis
      unfolding Call CompleteAudit Call_CompleteAudit [of _ _ _ _ _ _ _ _ _ _ 0]
      by (intro ordered_fstep_Resume ordered_fstep_BeginLog counted_fstep_Resume
          counted_fstep_Begin assms)
  next
    case (Connection w)
    with Call assms show ?thesis by (simp add: ordered_handlers)
  next
    case (Message w m ok)
    with Call assms show ?thesis by (simp add: ordered_handlers)
  next
    case (Close w)
    with Call assms ordered_handlers(3) [OF ordered_handlers(4) [OF assms(1)]]
    show ?thesis by simp
  next
    case (Transport w r)
    with Call assms show ?thesis by (simp add: ordered_handlers)
  qed
next
  case (BeginLog k' ty data now)
  with assms(4) have "k' \<noteq> k \<or> in_flight k s = []" by auto
  with BeginLog assms show ?thesis by (simp only: ordered_fstep_BeginLog)
next
  case (BeginStart uid jt jid now now' newId dbOk)
  with assms show ?thesis by (simp only: ordered_fstep_BeginStart)
next
  case (BeginComplete k' success preview aw tw now)
  with assms(4) have "k' \<noteq> k \<or> in_flight k s = []" by auto
  with BeginComplete assms show ?thesis by (simp only: ordered_fstep_BeginLog)
next
  case (Resume i dbOk now)
  with assms show ?thesis by (simp only: ordered_fstep_Resume)
qed


lemma counted_frun: "counted s \<Longrightarrow> fresh s \<Longrightarrow> counted (frun evs s)"
  by (induction evs arbitrary: s) (simp_all add: fresh_fstep counted_fstep del: fstep.simps)

lemma ordered_frun:
  "ordered k s \<Longrightarrow> counted s \<Longrightarrow> fresh s \<Longrightarrow> one_at_a_time k evs s
   \<Longrightarrow> ordered k (frun evs s)"
proof (induction evs arbitrary: s)
  case Nil
  then show ?case by simp
next
  case (Cons e evs)
  from Cons.prems have "ordered k (fstep e s)" "counted (fstep e s)" "fresh (fstep e s)"
    "one_at_a_time k evs (fstep e s)"
    by (simp_all add: ordered_fstep counted_fstep fresh_fstep del: fstep.simps)
  then show ?case using Cons.IH by simp
qed

lemma invariants_init: "fresh init_state" "counted init_state" "ordered k init_state"
  by (simp_all add: fresh_def counted_def ordered_def init_state_def)


subsection \<open>From a subscription on\<close>

















subsection \<open>The buffer invariant\<close>

text \<open>
  C10, as stated: every audit in the registry has its counter equal to the length of its
  buffer and the entry at index \<open>i\<close> numbered \<open>i + 1\<close>, and every completed \<open>logEvent\<close>
  call preserves this. It does not hold when two calls for one session overlap: each
  takes its number before it awaits the insert (line 135) and pushes after it (line
  160). Here session 7 is started, two calls take the numbers 2 and 3, the insert of the
  second is answered first and then that of the first; both calls have completed, the
  counter is 3 and the buffer holds the numbers 1, 3, 2.
\<close>

theorem buffer_invariant_counterexample:
  "map_option (\<lambda>a. (sequenceCounter a, map sequenceNum (entries a)))
     (activeAudits (frun [Call (StartAudit 1 ''reconstruction'' None 1 2 7 True True),
          BeginLog 7 error (ErrorData ''E'' ''m'' ''c'' None False) 3,
          BeginLog 7 error (ErrorData ''F'' ''m'' ''c'' None False) 4,
          Resume 1 True 5, Resume 0 True 6] init_state) 7) = Some (3, [1, 3, 2])
   \<and> suspended (frun [Call (StartAudit 1 ''reconstruction'' None 1 2 7 True True),
          BeginLog 7 error (ErrorData ''E'' ''m'' ''c'' None False) 3,
          BeginLog 7 error (ErrorData ''F'' ''m'' ''c'' None False) 4,
          Resume 1 True 5, Resume 0 True 6] init_state) = []
   \<and> \<not> registry_inv (frun [Call (StartAudit 1 ''reconstruction'' None 1 2 7 True True),
          BeginLog 7 error (ErrorData ''E'' ''m'' ''c'' None False) 3,
          BeginLog 7 error (ErrorData ''F'' ''m'' ''c'' None False) 4,
          Resume 1 True 5, Resume 0 True 6] init_state)"
proof -
  let ?s = "frun [Call (StartAudit 1 ''reconstruction'' None 1 2 7 True True),
          BeginLog 7 error (ErrorData ''E'' ''m'' ''c'' None False) 3,
          BeginLog 7 error (ErrorData ''F'' ''m'' ''c'' None False) 4,
          Resume 1 True 5, Resume 0 True 6] init_state"
  have a: "map_option (\<lambda>a. (sequenceCounter a, map sequenceNum (entries a)))
     (activeAudits ?s 7) = Some (3, [1, 3, 2])"
    by (simp add: eval_defs resume_call.simps numeral_2_eq_2 numeral_3_eq_3)
  have b: "suspended ?s = []"
    by (simp add: eval_defs resume_call.simps)
  from a obtain x where x: "activeAudits ?s 7 = Some x" "map sequenceNum (entries x) = [1, 3, 2]"
    by auto
  from x(2) have "length (entries x) = 3 \<and> sequenceNum (entries x ! 1) = 3"
    using length_map [of sequenceNum "entries x"] nth_map [of 1 "entries x" sequenceNum]
    by simp
  then have "\<not> (\<forall>i < length (entries x). sequenceNum (entries x ! i) = i + 1)"
    by (intro notI) (drule spec [of _ 1], simp)
  then have "\<not> buffer_inv x"
    by (simp add: buffer_inv_def)
  with x(1) have c: "\<not> registry_inv ?s"
    unfolding registry_inv_def by blast
  from a b c show ?thesis by blast
qed

text \<open>
  C10, amended: at every moment, the counter of every audit in the registry is the
  length of its buffer plus the number of \<open>logEvent\<close> calls in flight for it (those that
  have taken their number and not yet pushed). If the \<open>logEvent\<close> calls for a session
  do not overlap, none beginning while another is in flight, then at every moment the
  entry at index \<open>i\<close> of its buffer has sequence number \<open>i + 1\<close>, at most one call is in
  flight, and whenever none is, the counter equals the length of the buffer. In
  particular the invariant holds in the initial state, \<open>startAudit\<close> establishes it for
  the audit it creates, whole calls of \<open>startAudit\<close> and \<open>logEvent\<close> preserve it, and it
  holds after every history of whole calls.
\<close>

theorem buffer_invariant:
  "registry_inv init_state
   \<and> (registry_inv s \<longrightarrow>
        registry_inv (state_of (startAudit uid jt jid now now' newId dbOk dbOk' s))
      \<and> registry_inv (state_of (logEvent k ty data now' dbOk' s)))
   \<and> (\<exists>a. activeAudits (state_of (startAudit uid jt jid now now' newId True dbOk' s)) newId
              = Some a \<and> buffer_inv a)
   \<and> registry_inv (run acts init_state)
   \<and> (\<forall>a. activeAudits (frun evs init_state) k = Some a \<longrightarrow>
         sequenceCounter a
           = length (entries a) + length (in_flight k (frun evs init_state)))
   \<and> (one_at_a_time k evs init_state \<longrightarrow>
         (\<forall>a. activeAudits (frun evs init_state) k = Some a \<longrightarrow>
            (\<forall>i < length (entries a). sequenceNum (entries a ! i) = i + 1)
          \<and> length (in_flight k (frun evs init_state)) \<le> 1
          \<and> (in_flight k (frun evs init_state) = [] \<longrightarrow> buffer_inv a)))"
proof -
  let ?s = "frun evs init_state"
  have w: "\<exists>a. activeAudits (state_of (startAudit uid jt jid now now' newId True dbOk' s)) newId
              = Some a \<and> buffer_inv a"
    by (simp add: startAudit_eq buffer_inv_def)
  have c: "counted ?s"
    by (intro counted_frun invariants_init)
  then have c': "\<forall>a. activeAudits ?s k = Some a \<longrightarrow>
         sequenceCounter a = length (entries a) + length (in_flight k ?s)"
    by (simp add: counted_def)
  have o: "\<forall>a. activeAudits ?s k = Some a \<longrightarrow>
            (\<forall>i < length (entries a). sequenceNum (entries a ! i) = i + 1)
          \<and> length (in_flight k ?s) \<le> 1
          \<and> (in_flight k ?s = [] \<longrightarrow> buffer_inv a)"
    if "one_at_a_time k evs init_state"
  proof -
    have "ordered k ?s"
      using that by (intro ordered_frun invariants_init)
    with c' show ?thesis
      by (auto simp add: ordered_def buffer_inv_def)
  qed
  from w c' o show ?thesis
    using registry_inv_init registry_inv_startAudit registry_inv_logEvent
      registry_inv_run [OF registry_inv_init]
    by blast
qed

theorem buffer_invariant_witness:
  "registry_inv example_state
   \<and> registry_inv (state_of (logEvent 7 error (ErrorData ''E'' ''m'' ''c'' None False) 4 True
        example_state))
   \<and> one_at_a_time 7
        [Call (StartAudit 1 ''reconstruction'' None 1 2 7 True True),
         BeginLog 7 error (ErrorData ''E'' ''m'' ''c'' None False) 3,
         BeginLog 8 error (ErrorData ''F'' ''m'' ''c'' None False) 4,
         Resume 0 True 5,
         BeginLog 7 error (ErrorData ''G'' ''m'' ''c'' None False) 6] init_state
   \<and> map_option (\<lambda>a. (sequenceCounter a, map sequenceNum (entries a)))
        (activeAudits (frun
          [Call (StartAudit 1 ''reconstruction'' None 1 2 7 True True),
           BeginLog 7 error (ErrorData ''E'' ''m'' ''c'' None False) 3,
           BeginLog 8 error (ErrorData ''F'' ''m'' ''c'' None False) 4,
           Resume 0 True 5,
           BeginLog 7 error (ErrorData ''G'' ''m'' ''c'' None False) 6] init_state) 7)
       = Some (3, [1, 2])
   \<and> length (in_flight 7 (frun
          [Call (StartAudit 1 ''reconstruction'' None 1 2 7 True True),
           BeginLog 7 error (ErrorData ''E'' ''m'' ''c'' None False) 3,
           BeginLog 8 error (ErrorData ''F'' ''m'' ''c'' None False) 4,
           Resume 0 True 5,
           BeginLog 7 error (ErrorData ''G'' ''m'' ''c'' None False) 6] init_state)) = 1"
proof -
  let ?evs = "[Call (StartAudit 1 ''reconstruction'' None 1 2 7 True True),
         BeginLog 7 error (ErrorData ''E'' ''m'' ''c'' None False) 3,
         BeginLog 8 error (ErrorData ''F'' ''m'' ''c'' None False) 4,
         Resume 0 True 5,
         BeginLog 7 error (ErrorData ''G'' ''m'' ''c'' None False) 6]"
  have h: "registry_inv example_state"
    by (simp add: registry_inv_def buffer_inv_def example_state_eq example_audit_def
        example_entry_def)
  have o: "one_at_a_time 7 ?evs init_state"
    by (simp add: eval_defs in_flight_def resume_call.simps)
  have c: "map_option (\<lambda>a. (sequenceCounter a, map sequenceNum (entries a)))
        (activeAudits (frun ?evs init_state) 7) = Some (3, [1, 2])"
    by (simp add: eval_defs resume_call.simps numeral_2_eq_2 numeral_3_eq_3)
  have f: "length (in_flight 7 (frun ?evs init_state)) = 1"
    by (simp add: eval_defs in_flight_def resume_call.simps)
  from h o c f buffer_invariant [of example_state 1 "''x''" None 0 4 8 True True 7 error
      "ErrorData ''E'' ''m'' ''c'' None False" "[]" ?evs]
  show ?thesis by simp
qed

subsection \<open>Subscribing to a running session\<close>




end
